theory Spec2Isabelle
  imports Main "HOL-Library.Word" "HOL-Library.Sublist"
begin

section \<open>JavaScript numbers holding integers\<close>

text \<open>
  Every number the program computes with is an integer held in a JavaScript Number, an
  IEEE-754 double with a 53-bit significand. \<open>parseInt\<close> of a decimal string and the
  coercion of a decimal string in \<open>string <= number\<close> both yield the double nearest to
  the integer written (ties to the even significand), and \<open>x - y\<close> on doubles is the
  exact difference rounded the same way. All values met here are below \<open>2 ^ 65\<close> in
  magnitude, far from the exponent limit, so the rounding is written on integers.
\<close>

fun nbits :: "nat \<Rightarrow> nat" where
  "nbits n = (if n = 0 then 0 else Suc (nbits (n div 2)))"

declare nbits.simps [simp del]

definition f64_of_nat :: "nat \<Rightarrow> nat" where
  "f64_of_nat n =
     (if n < 2 ^ 53 then n
      else let e = nbits n - 53; q = n div 2 ^ e; r = n mod 2 ^ e; half = 2 ^ (e - 1)
           in if half < r \<or> (r = half \<and> odd q) then (q + 1) * 2 ^ e else q * 2 ^ e)"

definition f64_of_int :: "int \<Rightarrow> int" where
  "f64_of_int i = (if i < 0 then - int (f64_of_nat (nat (- i))) else int (f64_of_nat (nat i)))"

definition js_sub :: "int \<Rightarrow> int \<Rightarrow> int" where
  \<comment> \<open>\<open>x - y\<close> on two integer-valued doubles\<close>
  "js_sub x y = f64_of_int (x - y)"

type_synonym u64 = "64 word"
type_synonym u8 = "8 word"

definition parseInt :: "u64 \<Rightarrow> int" where
  \<comment> \<open>\<open>parseInt(s)\<close> where \<open>s\<close> is the decimal rendering of a u64, as the RPC transports it\<close>
  "parseInt w = f64_of_int (uint w)"

section \<open>Decoded records (the layouts registered at lines 34-109)\<close>

text \<open>
  One record for each layout, with the fields in declared order. A u64 field is decoded
  to its decimal string, an address to its hexadecimal string; the records keep the u64 as
  a word and the address as a string. A \<open>vector<u64>\<close> is a list. Field names that
  several layouts share (\<open>id\<close>, \<open>size\<close>, \<open>value\<close>, \<open>price\<close>) carry the name of their
  layout.
\<close>

type_synonym address = string

record Order =
  order_id :: u64
  client_order_id :: u64
  price :: u64
  original_quantity :: u64
  quantity :: u64
  is_bid :: bool
  owner :: address
  expire_timestamp :: u64
  self_matching_prevention :: u8

record Table =
  Table_id :: address
  Table_size :: u64

record ('k, 'v) Field =
  Field_id :: address
  Field_name :: 'k
  Field_value :: 'v

record LinkedTable =
  LinkedTable_id :: address
  LinkedTable_size :: u64
  LinkedTable_head :: "u64 list"
  LinkedTable_tail :: "u64 list"

record TickLevel =
  TickLevel_price :: u64
  open_orders :: LinkedTable

record 'v Node =
  Node_prev :: "u64 list"
  Node_next :: "u64 list"
  Node_value :: 'v

record 'v Leaf =
  Leaf_key :: u64
  Leaf_value :: 'v
  Leaf_parent :: u64

record CritbitTree =
  root :: u64
  internal_nodes :: Table
  leaves :: Table
  min_leaf :: u64
  max_leaf :: u64
  next_internal_node_index :: u64
  next_leaf_index :: u64

record Pool =
  Pool_id :: address
  bids :: CritbitTree
  asks :: CritbitTree
  next_bid_order_id :: u64
  next_ask_order_id :: u64
  usr_open_orders :: Table
  taker_fee_rate :: u64
  maker_rebate_rate :: u64
  tick_size :: u64
  lot_size :: u64

record PoolCreated =
  pool_id :: address
  base_asset :: string
  quote_asset :: string

section \<open>Expiry filter (lines 191-193)\<close>

definition expired :: "int \<Rightarrow> 'a Order_scheme \<Rightarrow> bool" where
  \<comment> \<open>\<open>order.expire_timestamp <= Date.now()\<close>: the decimal string is coerced to a Number;
      \<open>now\<close> is the clock reading, an integer number of milliseconds\<close>
  "expired now order \<longleftrightarrow> f64_of_int (uint (expire_timestamp order)) \<le> now"

definition filter_expired :: "int \<Rightarrow> 'a Order_scheme list \<Rightarrow> 'a Order_scheme list" where
  \<comment> \<open>\<open>orders.filter((order) => order.expire_timestamp <= Date.now())\<close>; the filter runs
      synchronously and its clock readings are taken as the one value \<open>now\<close>\<close>
  "filter_expired now orders = filter (expired now) orders"

section \<open>Rebate (lines 238-244)\<close>

record GasCostSummary =
  computationCost :: u64
  storageCost :: u64
  storageRebate :: u64
  nonRefundableStorageFee :: u64

definition rebate_of :: "'a GasCostSummary_scheme \<Rightarrow> int" where
  "rebate_of costSummary =
     js_sub (js_sub (parseInt (storageRebate costSummary)) (parseInt (storageCost costSummary)))
            (parseInt (computationCost costSummary))"

section \<open>Errors\<close>

text \<open>
  \<open>lib_error\<close> is what the libraries raise: a request the RPC client rejects, or bytes the
  codec cannot decode. \<open>InvalidPoolData\<close> is \<open>new Error('Invalid pool data type')\<close> of
  line 200; \<open>TypeError\<close> is a property read on \<open>undefined\<close>; \<open>RangeError\<close> is
  \<open>new Array\<close> called with a length that is not an array length.
\<close>

datatype lib_error = TransportError string | DecodeError string

datatype error = InvalidPoolData | TypeError | RangeError | Lib lib_error

section \<open>The RPC client and the codec, at their interface\<close>

text \<open>
  The client of \<open>@mysten/sui.js\<close> and the codec of \<open>@mysten/bcs\<close> are libraries. Each
  request of the client is a function of the remote state \<open>'w\<close> that returns the
  response, or the rejection, with the state after it. An id read from a response may be
  \<open>undefined\<close> at run time, so ids are optional values.
\<close>

type_synonym bytes = "u8 list"
type_synonym js_id = "string option"
type_synonym EventId = "string \<times> string"

datatype RawData = MoveObject string | Package

record SuiObjectData =
  object_bcs :: "RawData option"

record SuiObjectResponse =
  response_data :: "SuiObjectData option"
  response_error :: "string option"

record DynamicFieldInfo =
  objectId :: js_id

record SuiEvent =
  event_bcs :: "string option"

record ('a, 'c) Page =
  data :: "'a list"
  nextCursor :: "'c option"
  hasNextPage :: bool

type_synonym ('r, 'w) request = "'w \<Rightarrow> (lib_error + 'r) \<times> 'w"

datatype tx_argument = Input nat | Result nat

datatype pure_value = PureU64 u64 | PureAddress address

datatype tx_input = PureInput pure_value string | ObjectInput string

datatype tx_command =
    MakeMoveVec string "tx_argument list"
  | MoveCall string "tx_argument list" "string list"

record TransactionBlock =
  inputs :: "tx_input list"
  transactions :: "tx_command list"

record 'w SuiClient =
  queryEvents :: "string \<Rightarrow> EventId option \<Rightarrow> ((SuiEvent, EventId) Page, 'w) request"
  getObject :: "js_id \<Rightarrow> (SuiObjectResponse, 'w) request"
  getDynamicFields :: "js_id \<Rightarrow> string option \<Rightarrow> ((DynamicFieldInfo, string) Page, 'w) request"
  multiGetObjects :: "js_id list \<Rightarrow> (SuiObjectResponse list, 'w) request"
  devInspectTransactionBlock :: "TransactionBlock \<Rightarrow> string \<Rightarrow> (GasCostSummary, 'w) request"

record Codec =
  fromB58 :: "string option \<Rightarrow> lib_error + bytes"
  fromB64 :: "string \<Rightarrow> lib_error + bytes"
  de_PoolCreated :: "bytes \<Rightarrow> lib_error + PoolCreated"
  de_Pool :: "bytes \<Rightarrow> lib_error + Pool"
  de_Field_Leaf_TickLevel :: "bytes \<Rightarrow> lib_error + (u64, TickLevel Leaf) Field"
  de_Field_Node_Order :: "bytes \<Rightarrow> lib_error + (u64, Order Node) Field"

definition await :: "('r, 'w) request \<Rightarrow> 'w \<Rightarrow> (error + 'r) \<times> 'w" where
  \<comment> \<open>\<open>await\<close> on a request of the client: a rejection is thrown\<close>
  "await req w = (case req w of (Inl e, w') \<Rightarrow> (Inl (Lib e), w') | (Inr r, w') \<Rightarrow> (Inr r, w'))"

definition lib :: "lib_error + 'a \<Rightarrow> error + 'a" where
  "lib r = (case r of Inl e \<Rightarrow> Inl (Lib e) | Inr x \<Rightarrow> Inr x)"

fun map_throwing :: "('a \<Rightarrow> error + 'b) \<Rightarrow> 'a list \<Rightarrow> error + 'b list" where
  \<comment> \<open>\<open>xs.map(f)\<close> where \<open>f\<close> may throw: the first throw ends the map\<close>
  "map_throwing f [] = Inr []"
| "map_throwing f (x # xs) =
     (case f x of
        Inl e \<Rightarrow> Inl e
      | Inr y \<Rightarrow> (case map_throwing f xs of Inl e \<Rightarrow> Inl e | Inr ys \<Rightarrow> Inr (y # ys)))"

text \<open>
  An asynchronous function is a function of the remote state that returns its result, or
  the error it throws, with the state after it; one that holds a loop without a bound
  returns \<open>None\<close> when the loop does not end.
\<close>

definition bind_io ::
  "('w \<Rightarrow> ((error + 'a) \<times> 'w) option) \<Rightarrow> ('a \<Rightarrow> 'w \<Rightarrow> ((error + 'b) \<times> 'w) option)
   \<Rightarrow> 'w \<Rightarrow> ((error + 'b) \<times> 'w) option" where
  \<comment> \<open>\<open>const x = await m; ... f(x)\<close>: an error of \<open>m\<close> ends the function\<close>
  "bind_io m f w =
     (case m w of
        None \<Rightarrow> None
      | Some (Inl e, w') \<Rightarrow> Some (Inl e, w')
      | Some (Inr x, w') \<Rightarrow> f x w')"

definition total :: "('w \<Rightarrow> (error + 'a) \<times> 'w) \<Rightarrow> 'w \<Rightarrow> ((error + 'a) \<times> 'w) option" where
  "total m w = Some (m w)"

definition sync :: "error + 'a \<Rightarrow> 'w \<Rightarrow> ((error + 'a) \<times> 'w) option" where
  \<comment> \<open>a synchronous step: the remote state is not touched\<close>
  "sync r w = Some (r, w)"

section \<open>chunks (lines 296-300)\<close>

definition chunks :: "'a list \<Rightarrow> nat \<Rightarrow> error + 'a list list" where
  \<comment> \<open>\<open>chunks(data, size)\<close> with \<open>xs\<close> for \<open>data\<close> and \<open>n\<close> for \<open>size\<close>.
      \<open>Math.ceil(data.length / size)\<close> is \<open>(length xs + n - 1) div n\<close> for a positive
      \<open>n\<close>; with \<open>n = 0\<close> the quotient is \<open>Infinity\<close> or \<open>NaN\<close> and \<open>new Array\<close>
      throws. \<open>data.slice(a, a + size)\<close> is \<open>take n (drop a xs)\<close>.\<close>
  "chunks xs n =
     (if n = 0 then Inl RangeError
      else Inr (map (\<lambda>i. take n (drop (i * n) xs)) [0 ..< (length xs + n - 1) div n]))"

section \<open>The page loops (lines 116-133 and 248-261)\<close>

text \<open>
  Both functions run the same loop: \<open>while (page.hasNextPage)\<close> request the next page
  with \<open>page.nextCursor\<close> and push its items. The loop has no bound of its own, so not
  returning is the value \<open>None\<close>.
\<close>

partial_function (option) page_loop ::
  "('c option \<Rightarrow> (('a, 'c) Page, 'w) request) \<Rightarrow> ('a, 'c) Page \<Rightarrow> 'a list \<Rightarrow> 'w
   \<Rightarrow> ((error + 'a list) \<times> 'w) option"
where
  "page_loop fetch page items w =
     (if hasNextPage page
      then (case fetch (nextCursor page) w of
              (Inl e, w') \<Rightarrow> Some (Inl (Lib e), w')
            | (Inr page', w') \<Rightarrow> page_loop fetch page' (items @ data page') w')
      else Some (Inr items, w))"



definition all_pages ::
  "('c option \<Rightarrow> (('a, 'c) Page, 'w) request) \<Rightarrow> 'w \<Rightarrow> ((error + 'a list) \<times> 'w) option" where
  \<comment> \<open>lines 117-129 and lines 249-259: the first request carries no cursor,
      \<open>const data = page.data\<close>, then the loop\<close>
  "all_pages fetch =
     bind_io (total (await (fetch None))) (\<lambda>page. page_loop fetch page (data page))"


definition getAllDFPages ::
  "'w SuiClient \<Rightarrow> js_id \<Rightarrow> 'w \<Rightarrow> ((error + DynamicFieldInfo list) \<times> 'w) option" where
  "getAllDFPages client parentId =
     bind_io (all_pages (getDynamicFields client parentId)) (\<lambda>items.
     sync (Inr (filter (\<lambda>node. objectId node \<noteq> None) items)))"

section \<open>getOrders (lines 263-293)\<close>

definition payload :: "SuiObjectResponse \<Rightarrow> RawData option" where
  \<comment> \<open>\<open>response.data?.bcs!\<close>\<close>
  "payload response =
     (case response_data response of None \<Rightarrow> None | Some d \<Rightarrow> object_bcs d)"

definition de_order :: "Codec \<Rightarrow> string \<Rightarrow> error + Order" where
  \<comment> \<open>lines 278-282: \<open>bcs.de('Field<u64, Node<Order>>', fromB64(bcsBytes)).value.value\<close>\<close>
  "de_order bcs bcsBytes =
     (case fromB64 bcs bcsBytes of
        Inl e \<Rightarrow> Inl (Lib e)
      | Inr b \<Rightarrow>
          (case de_Field_Node_Order bcs b of
             Inl e \<Rightarrow> Inl (Lib e)
           | Inr order \<Rightarrow> Inr (Node_value (Field_value order))))"

definition order_of_response :: "Codec \<Rightarrow> SuiObjectResponse \<Rightarrow> error + Order option" where
  \<comment> \<open>the callback of \<open>responses.map\<close> at lines 273-288; \<open>None\<close> is \<open>undefined\<close>\<close>
  "order_of_response bcs response =
     (if response_error response = None
      then (case payload response of
              None \<Rightarrow> Inl TypeError
            | Some (MoveObject bcsBytes) \<Rightarrow>
                (case de_order bcs bcsBytes of Inl e \<Rightarrow> Inl e | Inr order \<Rightarrow> Inr (Some order))
            | Some Package \<Rightarrow> Inr None)
      else Inr None)"

fun resolve_chunks ::
  "(js_id list \<Rightarrow> (SuiObjectResponse list, 'w) request) \<Rightarrow> (SuiObjectResponse \<Rightarrow> error + 'a option)
   \<Rightarrow> js_id list list \<Rightarrow> 'a option list \<Rightarrow> 'w \<Rightarrow> (error + 'a option list) \<times> 'w" where
  \<comment> \<open>\<open>for (const chunk of ...) result.push(...(await multiGetObjects(chunk).then(map)))\<close>\<close>
  "resolve_chunks mget f [] result w = (Inr result, w)"
| "resolve_chunks mget f (chunk # rest) result w =
     (case await (mget chunk) w of
        (Inl e, w') \<Rightarrow> (Inl e, w')
      | (Inr responses, w') \<Rightarrow>
          (case map_throwing f responses of
             Inl e \<Rightarrow> (Inl e, w')
           | Inr values \<Rightarrow> resolve_chunks mget f rest (result @ values) w'))"

definition defined :: "'a option list \<Rightarrow> 'a list" where
  \<comment> \<open>\<open>xs.filter((x) => x !== undefined)\<close>\<close>
  "defined xs = List.map_filter (\<lambda>x. x) xs"

definition getOrders ::
  "'w SuiClient \<Rightarrow> Codec \<Rightarrow> js_id list \<Rightarrow> 'w \<Rightarrow> (error + Order list) \<times> 'w" where
  "getOrders client bcs ids w =
     (case chunks ids 50 of
        Inl e \<Rightarrow> (Inl e, w)
      | Inr cs \<Rightarrow>
          (case resolve_chunks (multiGetObjects client) (order_of_response bcs) cs [] w of
             (Inl e, w') \<Rightarrow> (Inl e, w')
           | (Inr result, w') \<Rightarrow> (Inr (defined result), w')))"

section \<open>retrieveExpiredOrders (lines 135-201)\<close>

definition de_tickLevel :: "Codec \<Rightarrow> string \<Rightarrow> error + TickLevel" where
  \<comment> \<open>lines 162-165:
      \<open>bcs.de('Field<u64, Leaf<TickLevel>>', fromB64(bcsBytes)).value.value\<close>\<close>
  "de_tickLevel bcs bcsBytes =
     (case fromB64 bcs bcsBytes of
        Inl e \<Rightarrow> Inl (Lib e)
      | Inr b \<Rightarrow>
          (case de_Field_Leaf_TickLevel bcs b of
             Inl e \<Rightarrow> Inl (Lib e)
           | Inr field \<Rightarrow> Inr (Leaf_value (Field_value field))))"

definition tickLevel_of_response ::
  "Codec \<Rightarrow> SuiObjectResponse \<Rightarrow> error + TickLevel option" where
  \<comment> \<open>the callback of \<open>responses.map\<close> at lines 157-171; \<open>None\<close> is \<open>undefined\<close>\<close>
  "tickLevel_of_response bcs response =
     (if response_error response = None
      then (case payload response of
              None \<Rightarrow> Inl TypeError
            | Some (MoveObject bcsBytes) \<Rightarrow>
                (case de_tickLevel bcs bcsBytes of
                   Inl e \<Rightarrow> Inl e
                 | Inr tickLevel \<Rightarrow> Inr (Some tickLevel))
            | Some Package \<Rightarrow> Inr None)
      else Inr None)"

fun orderIds_streams ::
  "'w SuiClient \<Rightarrow> TickLevel list \<Rightarrow> 'w \<Rightarrow> ((error + js_id list list) \<times> 'w) option" where
  \<comment> \<open>lines 176-189: one stream \<open>getAllDFPages(tickLevel.open_orders.id)\<close> per tick level,
      started through \<open>limit\<close> and joined by \<open>Promise.all\<close>; the streams are run one after
      another, in the order of their promises\<close>
  "orderIds_streams client [] = sync (Inr [])"
| "orderIds_streams client (tickLevel # rest) =
     bind_io (getAllDFPages client (Some (LinkedTable_id (open_orders tickLevel)))) (\<lambda>nodes.
     bind_io (orderIds_streams client rest) (\<lambda>more.
     sync (Inr (map objectId nodes # more))))"

definition pool_orders ::
  "'w SuiClient \<Rightarrow> Codec \<Rightarrow> string \<Rightarrow> 'w \<Rightarrow> ((error + Order list) \<times> 'w) option" where
  \<comment> \<open>lines 145-190, from the bytes of the pool to \<open>orders\<close>\<close>
  "pool_orders client bcs bcsBytes =
     bind_io (sync (lib (fromB64 bcs bcsBytes))) (\<lambda>b.
     bind_io (sync (lib (de_Pool bcs b))) (\<lambda>pool.
     bind_io (getAllDFPages client (Some (Table_id (leaves (asks pool))))) (\<lambda>asks'.
     bind_io (getAllDFPages client (Some (Table_id (leaves (bids pool))))) (\<lambda>bids'.
     bind_io (sync (chunks (map objectId (bids' @ asks')) 50)) (\<lambda>cs.
     bind_io (total (resolve_chunks (multiGetObjects client) (tickLevel_of_response bcs) cs []))
       (\<lambda>tickLevels.
     bind_io (orderIds_streams client (defined tickLevels)) (\<lambda>orderIds.
     total (getOrders client bcs (concat orderIds)))))))))"

definition retrieveExpiredOrders ::
  "'w SuiClient \<Rightarrow> Codec \<Rightarrow> int \<Rightarrow> string \<Rightarrow> 'w \<Rightarrow> ((error + Order list) \<times> 'w) option" where
  \<comment> \<open>\<open>now\<close> is the reading of \<open>Date.now()\<close>; the \<open>console.log\<close> of lines 194-196 is left out\<close>
  "retrieveExpiredOrders client bcs now poolId =
     bind_io (total (await (getObject client (Some poolId)))) (\<lambda>pool.
       case payload pool of
         None \<Rightarrow> sync (Inl TypeError)
       | Some (MoveObject bcsBytes) \<Rightarrow>
           bind_io (pool_orders client bcs bcsBytes) (\<lambda>orders.
           sync (Inr (filter_expired now orders)))
       | Some Package \<Rightarrow> sync (Inl InvalidPoolData))"

section \<open>createCleanUpTransaction (lines 203-245)\<close>

text \<open>
  \<open>TransactionBlock\<close> of \<open>@mysten/sui.js\<close> is a builder: \<open>tx.pure\<close> and \<open>tx.object\<close> add an
  input and return a reference to it, \<open>tx.makeMoveVec\<close> and \<open>tx.moveCall\<close> add a command
  and return a reference to its result. \<open>tx.object\<close> returns the input already there when
  one names the same object; \<open>norm\<close> is the library's normal form of an object id.
\<close>

record PoolOrder =
  pool :: PoolCreated
  expiredOrders :: "Order list"

definition tx_input_add :: "tx_input \<Rightarrow> TransactionBlock \<Rightarrow> tx_argument \<times> TransactionBlock" where
  "tx_input_add i tx = (Input (length (inputs tx)), tx\<lparr>inputs := inputs tx @ [i]\<rparr>)"

definition tx_pure :: "pure_value \<Rightarrow> string \<Rightarrow> TransactionBlock \<Rightarrow> tx_argument \<times> TransactionBlock" where
  "tx_pure v ty = tx_input_add (PureInput v ty)"

fun find_object :: "(string \<Rightarrow> string) \<Rightarrow> string \<Rightarrow> tx_input list \<Rightarrow> nat \<Rightarrow> nat option" where
  "find_object norm v [] k = None"
| "find_object norm v (PureInput p ty # rest) k = find_object norm v rest (Suc k)"
| "find_object norm v (ObjectInput v' # rest) k =
     (if norm v = norm v' then Some k else find_object norm v rest (Suc k))"

definition tx_object ::
  "(string \<Rightarrow> string) \<Rightarrow> string \<Rightarrow> TransactionBlock \<Rightarrow> tx_argument \<times> TransactionBlock" where
  "tx_object norm v tx =
     (case find_object norm v (inputs tx) 0 of
        Some k \<Rightarrow> (Input k, tx)
      | None \<Rightarrow> tx_input_add (ObjectInput v) tx)"

definition tx_add :: "tx_command \<Rightarrow> TransactionBlock \<Rightarrow> tx_argument \<times> TransactionBlock" where
  "tx_add c tx = (Result (length (transactions tx)), tx\<lparr>transactions := transactions tx @ [c]\<rparr>)"

fun tx_map ::
  "('a \<Rightarrow> TransactionBlock \<Rightarrow> tx_argument \<times> TransactionBlock) \<Rightarrow> 'a list \<Rightarrow> TransactionBlock
   \<Rightarrow> tx_argument list \<times> TransactionBlock" where
  \<comment> \<open>\<open>xs.map((x) => tx.pure(...))\<close>\<close>
  "tx_map f [] tx = ([], tx)"
| "tx_map f (x # xs) tx =
     (let (a, tx1) = f x tx; (as, tx2) = tx_map f xs tx1 in (a # as, tx2))"

definition clean_up_target :: string where
  "clean_up_target = ''0xdee9::clob_v2::clean_up_expired_orders''"

definition add_clean_up :: "(string \<Rightarrow> string) \<Rightarrow> TransactionBlock \<Rightarrow> PoolOrder \<Rightarrow> TransactionBlock" where
  \<comment> \<open>the body of the loop, lines 209-231\<close>
  "add_clean_up norm tx poolOrder =
     (let (orderIds, tx1) = tx_map (\<lambda>order. tx_pure (PureU64 (order_id order)) ''u64'')
                                   (expiredOrders poolOrder) tx;
          (orderOwners, tx2) = tx_map (\<lambda>order. tx_pure (PureAddress (owner order)) ''address'')
                                      (expiredOrders poolOrder) tx1;
          (orderIdVec, tx3) = tx_add (MakeMoveVec ''u64'' orderIds) tx2;
          (orderOwnerVec, tx4) = tx_add (MakeMoveVec ''address'' orderOwners) tx3;
          (poolArg, tx5) = tx_object norm (pool_id (pool poolOrder)) tx4;
          (clockArg, tx6) = tx_object norm ''0x6'' tx5
      in snd (tx_add (MoveCall clean_up_target [poolArg, clockArg, orderIdVec, orderOwnerVec]
                        [base_asset (pool poolOrder), quote_asset (pool poolOrder)]) tx6))"

definition clean_up_block :: "(string \<Rightarrow> string) \<Rightarrow> PoolOrder list \<Rightarrow> TransactionBlock" where
  \<comment> \<open>lines 206-232\<close>
  "clean_up_block norm poolOrders =
     foldl (add_clean_up norm) \<lparr>inputs = [], transactions = []\<rparr> poolOrders"

definition sender :: string where
  "sender = ''0x6c8adbafc9c7082c7b362d262aef7d1dc73589cb6bab27f235468cfa844f097f''"

definition createCleanUpTransaction ::
  "'w SuiClient \<Rightarrow> (string \<Rightarrow> string) \<Rightarrow> PoolOrder list \<Rightarrow> 'w
   \<Rightarrow> (error + int \<times> TransactionBlock) \<times> 'w" where
  "createCleanUpTransaction client norm poolOrders w =
     (let tx = clean_up_block norm poolOrders
      in case await (devInspectTransactionBlock client tx sender) w of
           (Inl e, w') \<Rightarrow> (Inl e, w')
         | (Inr costSummary, w') \<Rightarrow> (Inr (rebate_of costSummary, tx), w'))"

section \<open>Reading a built block\<close>

definition input_at :: "TransactionBlock \<Rightarrow> tx_argument \<Rightarrow> tx_input option" where
  "input_at tx a =
     (case a of
        Input i \<Rightarrow> if i < length (inputs tx) then Some (inputs tx ! i) else None
      | Result j \<Rightarrow> None)"

definition object_at :: "(string \<Rightarrow> string) \<Rightarrow> TransactionBlock \<Rightarrow> tx_argument \<Rightarrow> string option" where
  "object_at norm tx a =
     (case input_at tx a of Some (ObjectInput v) \<Rightarrow> Some (norm v) | _ \<Rightarrow> None)"

definition vec_at :: "TransactionBlock \<Rightarrow> tx_argument \<Rightarrow> (string \<times> tx_input option list) option" where
  "vec_at tx a =
     (case a of
        Input i \<Rightarrow> None
      | Result j \<Rightarrow>
          if j < length (transactions tx)
          then (case transactions tx ! j of
                  MakeMoveVec ty objs \<Rightarrow> Some (ty, map (input_at tx) objs)
                | MoveCall target args tys \<Rightarrow> None)
          else None)"

record clean_up_call =
  call_target :: string
  call_pool :: "string option"
  call_clock :: "string option"
  call_order_ids :: "(string \<times> tx_input option list) option"
  call_order_owners :: "(string \<times> tx_input option list) option"
  call_type_arguments :: "string list"

fun move_calls :: "tx_command list \<Rightarrow> (string \<times> tx_argument list \<times> string list) list" where
  "move_calls [] = []"
| "move_calls (MakeMoveVec ty objs # cs) = move_calls cs"
| "move_calls (MoveCall target args tys # cs) = (target, args, tys) # move_calls cs"

definition read_call ::
  "(string \<Rightarrow> string) \<Rightarrow> TransactionBlock \<Rightarrow> string \<times> tx_argument list \<times> string list
   \<Rightarrow> clean_up_call option" where
  "read_call norm tx c =
     (case c of
        (target, [a1, a2, a3, a4], tys) \<Rightarrow>
          Some \<lparr>call_target = target, call_pool = object_at norm tx a1,
                call_clock = object_at norm tx a2, call_order_ids = vec_at tx a3,
                call_order_owners = vec_at tx a4, call_type_arguments = tys\<rparr>
      | _ \<Rightarrow> None)"

definition clean_up_calls :: "(string \<Rightarrow> string) \<Rightarrow> TransactionBlock \<Rightarrow> clean_up_call option list" where
  "clean_up_calls norm tx = map (read_call norm tx) (move_calls (transactions tx))"

definition expected_call :: "(string \<Rightarrow> string) \<Rightarrow> PoolOrder \<Rightarrow> clean_up_call" where
  "expected_call norm poolOrder =
     \<lparr>call_target = clean_up_target,
      call_pool = Some (norm (pool_id (pool poolOrder))),
      call_clock = Some (norm ''0x6''),
      call_order_ids =
        Some (''u64'', map (\<lambda>order. Some (PureInput (PureU64 (order_id order)) ''u64''))
                           (expiredOrders poolOrder)),
      call_order_owners =
        Some (''address'', map (\<lambda>order. Some (PureInput (PureAddress (owner order)) ''address''))
                               (expiredOrders poolOrder)),
      call_type_arguments = [base_asset (pool poolOrder), quote_asset (pool poolOrder)]\<rparr>"

section \<open>Observing the requests and the responses\<close>

text \<open>
  The definitions of this section are not part of the program: they say what a run is
  given and what it is seen to do. \<open>logged f\<close> answers as \<open>f\<close> does and records each
  request in a log kept beside the remote state.
\<close>

definition logged :: "('q \<Rightarrow> ('r, 'w) request) \<Rightarrow> 'q \<Rightarrow> ('r, 'q list \<times> 'w) request" where
  "logged f q = (\<lambda>(log, w). case f q w of (r, w') \<Rightarrow> (r, (log @ [q], w')))"

fun answers :: "('q \<Rightarrow> ('r, 'w) request) \<Rightarrow> 'q list \<Rightarrow> 'w \<Rightarrow> ('r list \<times> 'w) option" where
  \<comment> \<open>the requests \<open>qs\<close>, sent in this order from state \<open>w\<close>, are all answered: the
      responses and the state after the last one\<close>
  "answers f [] w = Some ([], w)"
| "answers f (q # qs) w =
     (case f q w of
        (Inl e, w') \<Rightarrow> None
      | (Inr r, w') \<Rightarrow>
          (case answers f qs w' of None \<Rightarrow> None | Some (rs, w'') \<Rightarrow> Some (r # rs, w'')))"

fun pages_from ::
  "('c option \<Rightarrow> (('a, 'c) Page, 'w) request) \<Rightarrow> 'c option \<Rightarrow> 'w \<Rightarrow> ('a, 'c) Page list \<Rightarrow> 'w
   \<Rightarrow> bool" where
  \<comment> \<open>a finite source: asked from \<open>cursor\<close> in state \<open>w\<close> and followed through the cursors
      of its own pages, it serves exactly the pages \<open>ps\<close>, the last one alone without the
      more-pages flag, and is left in state \<open>w'\<close>\<close>
  "pages_from fetch cursor w [] w' = False"
| "pages_from fetch cursor w [p] w' = (fetch cursor w = (Inr p, w') \<and> \<not> hasNextPage p)"
| "pages_from fetch cursor w (p # q # ps) w' =
     (fst (fetch cursor w) = Inr p \<and> hasNextPage p
      \<and> pages_from fetch (nextCursor p) (snd (fetch cursor w)) (q # ps) w')"




definition never_invalid_pool :: "('w \<Rightarrow> ((error + 'a) \<times> 'w) option) \<Rightarrow> bool" where
  \<comment> \<open>no run of the step ends with the error of line 200\<close>
  "never_invalid_pool m = (\<forall>w r w'. m w = Some (r, w') \<longrightarrow> r \<noteq> Inl InvalidPoolData)"

definition extends :: "TransactionBlock \<Rightarrow> TransactionBlock \<Rightarrow> bool" where
  \<comment> \<open>the builder only appends: the inputs and commands of \<open>tx\<close> are still there, at
      the same indices, in \<open>tx'\<close>\<close>
  "extends tx tx' \<longleftrightarrow>
     prefix (inputs tx) (inputs tx') \<and> prefix (transactions tx) (transactions tx')"

section \<open>A small ledger for concrete runs\<close>

text \<open>
  One pool \<open>pool1\<close> with two price levels. The level under \<open>bids\<close> queues the orders
  \<open>c\<close> and \<open>b\<close>, the level under \<open>asks\<close> the orders \<open>a\<close> and \<open>d\<close>; object \<open>b\<close> has been
  deleted and is answered with an error marker. With the clock at \<open>stub_now\<close>, order \<open>a\<close>
  expired 1 ms ago, order \<open>c\<close> 5 ms ago, and order \<open>d\<close> expires in 1000 ms. The listing of
  \<open>bids\<close> has two pages and one entry without an object id. The codec tells the payloads
  apart by their length.
\<close>

definition stub_now :: int where
  "stub_now = 1700000000000"

definition stub_order :: "u64 \<Rightarrow> Order" where
  "stub_order n =
     \<lparr>order_id = n, client_order_id = 0, price = 1, original_quantity = 1, quantity = 1,
      is_bid = True, owner = ''aa'',
      expire_timestamp =
        (if n = 1 then 1699999999999 else if n = 2 then 1700000001000 else 1699999999995),
      self_matching_prevention = 0\<rparr>"

definition stub_table :: "address \<Rightarrow> Table" where
  "stub_table i = \<lparr>Table_id = i, Table_size = 0\<rparr>"

definition stub_tree :: "address \<Rightarrow> CritbitTree" where
  "stub_tree i =
     \<lparr>root = 0, internal_nodes = stub_table ''00'', leaves = stub_table i, min_leaf = 0,
      max_leaf = 0, next_internal_node_index = 0, next_leaf_index = 0\<rparr>"

definition stub_pool :: Pool where
  "stub_pool =
     \<lparr>Pool_id = ''pool1'', bids = stub_tree ''bids'', asks = stub_tree ''asks'',
      next_bid_order_id = 0, next_ask_order_id = 0, usr_open_orders = stub_table ''00'',
      taker_fee_rate = 0, maker_rebate_rate = 0, tick_size = 1, lot_size = 1\<rparr>"

definition stub_tickLevel :: "bool \<Rightarrow> TickLevel" where
  "stub_tickLevel ask =
     \<lparr>TickLevel_price = 1,
      open_orders = \<lparr>LinkedTable_id = (if ask then ''qA'' else ''qB''), LinkedTable_size = 2,
                     LinkedTable_head = [], LinkedTable_tail = []\<rparr>\<rparr>"

definition stub_created :: PoolCreated where
  "stub_created = \<lparr>pool_id = ''pool1'', base_asset = ''BASE'', quote_asset = ''QUOTE''\<rparr>"

definition stub_codec :: Codec where
  "stub_codec =
     \<lparr>fromB58 = (\<lambda>s. case s of None \<Rightarrow> Inl (DecodeError ''base58'') | Some t \<Rightarrow> Inr (map of_char t)),
      fromB64 = (\<lambda>s. Inr (map of_char s)),
      de_PoolCreated = (\<lambda>b. Inr stub_created),
      de_Pool = (\<lambda>b. Inr stub_pool),
      de_Field_Leaf_TickLevel =
        (\<lambda>b. Inr \<lparr>Field_id = ''00'', Field_name = 0,
                   Field_value = \<lparr>Leaf_key = 0, Leaf_value = stub_tickLevel (length b = 1),
                                  Leaf_parent = 0\<rparr>\<rparr>),
      de_Field_Node_Order =
        (\<lambda>b. Inr \<lparr>Field_id = ''00'', Field_name = 0,
                   Field_value = \<lparr>Node_prev = [], Node_next = [],
                                  Node_value = stub_order (of_nat (length b))\<rparr>\<rparr>)\<rparr>"

definition move_object :: "string \<Rightarrow> SuiObjectResponse" where
  "move_object bcsBytes =
     \<lparr>response_data = Some \<lparr>object_bcs = Some (MoveObject bcsBytes)\<rparr>, response_error = None\<rparr>"

definition stub_object :: "js_id \<Rightarrow> SuiObjectResponse" where
  "stub_object i =
     (if i = Some ''a'' then move_object ''x''
      else if i = Some ''d'' then move_object ''xx''
      else if i = Some ''c'' then move_object ''xxx''
      else if i = Some ''leafA'' then move_object ''A''
      else if i = Some ''leafB'' then move_object ''BB''
      else if i = Some ''pool1'' then move_object ''P''
      else if i = Some ''pkg''
      then \<lparr>response_data = Some \<lparr>object_bcs = Some Package\<rparr>, response_error = None\<rparr>
      else \<lparr>response_data = None, response_error = Some ''deleted''\<rparr>)"

definition stub_multiGet :: "js_id list \<Rightarrow> (SuiObjectResponse list, 'w) request" where
  "stub_multiGet ids w = (Inr (map stub_object ids), w)"

definition refuse :: "('r, 'w) request" where
  "refuse w = (Inl (TransportError ''refused''), w)"

definition field :: "string \<Rightarrow> DynamicFieldInfo" where
  "field i = \<lparr>objectId = Some i\<rparr>"

definition last_page :: "'a list \<Rightarrow> ('a, 'c) Page" where
  "last_page xs = \<lparr>data = xs, nextCursor = None, hasNextPage = False\<rparr>"

definition stub_fields :: "js_id \<Rightarrow> string option \<Rightarrow> ((DynamicFieldInfo, string) Page, 'w) request" where
  "stub_fields parent cursor w =
     (if parent = Some ''bids'' \<and> cursor = None
      then (Inr \<lparr>data = [field ''leafB'', \<lparr>objectId = None\<rparr>], nextCursor = Some ''1'',
                 hasNextPage = True\<rparr>, w)
      else if parent = Some ''bids'' \<and> cursor = Some ''1'' then (Inr (last_page []), w)
      else if parent = Some ''asks'' \<and> cursor = None then (Inr (last_page [field ''leafA'']), w)
      else if parent = Some ''qA'' \<and> cursor = None
      then (Inr (last_page [field ''a'', field ''d'']), w)
      else if parent = Some ''qB'' \<and> cursor = None
      then (Inr (last_page [field ''c'', field ''b'']), w)
      else refuse w)"

definition stub_events :: "string \<Rightarrow> EventId option \<Rightarrow> ((SuiEvent, EventId) Page, 'w) request" where
  "stub_events ty cursor w =
     (if cursor = None
      then (Inr \<lparr>data = [\<lparr>event_bcs = Some ''e1''\<rparr>], nextCursor = Some (''tx'', ''0''),
                 hasNextPage = True\<rparr>, w)
      else if cursor = Some (''tx'', ''0'') then (Inr (last_page []), w)
      else refuse w)"

definition stub_costs :: GasCostSummary where
  "stub_costs =
     \<lparr>computationCost = 50, storageCost = 100, storageRebate = 300,
      nonRefundableStorageFee = 0\<rparr>"

definition stub_client :: "'w SuiClient" where
  "stub_client =
     \<lparr>queryEvents = stub_events, getObject = (\<lambda>i w. (Inr (stub_object i), w)),
      getDynamicFields = stub_fields, multiGetObjects = stub_multiGet,
      devInspectTransactionBlock = (\<lambda>tx sender w. (Inr stub_costs, w))\<rparr>"




section \<open>The binary codec and the registered layouts (lines 33-109)\<close>

text \<open>
  The calls to \<open>registerStructType\<close> are in the source; the codec they configure,
  \<open>@mysten/bcs\<close>, is not. The layouts below follow the source field by field, a type
  name being replaced by the layout it names and a placeholder (\<open>K\<close>, \<open>V\<close>) by an
  argument. The types, the values and the codec itself are modelled from the spec, its
  sections 4.1 and 6: little-endian fixed-width integers, one-byte booleans, 32-byte
  addresses, length-prefixed strings and sequences, records as the concatenation of their
  fields in declared order.
\<close>

datatype bcs_type =
    U8 | U64 | Bool | Address | String
  | Vector bcs_type
  | Struct "(string \<times> bcs_type) list"

datatype bcs_value =
    VU8 u8 | VU64 u64 | VBool bool | VAddress bytes | VString string
  | VVector "bcs_value list"
  | VStruct "(string \<times> bcs_value) list"

definition Order_layout :: bcs_type where
  "Order_layout =
     Struct [(''order_id'', U64), (''client_order_id'', U64), (''price'', U64),
             (''original_quantity'', U64), (''quantity'', U64), (''is_bid'', Bool),
             (''owner'', Address), (''expire_timestamp'', U64),
             (''self_matching_prevention'', U8)]"

definition Table_layout :: bcs_type where
  "Table_layout = Struct [(''id'', Address), (''size'', U64)]"

definition Field_layout :: "bcs_type \<Rightarrow> bcs_type \<Rightarrow> bcs_type" where
  "Field_layout K V = Struct [(''id'', Address), (''name'', K), (''value'', V)]"

definition LinkedTable_layout :: bcs_type where
  "LinkedTable_layout =
     Struct [(''id'', Address), (''size'', U64), (''head'', Vector U64), (''tail'', Vector U64)]"

definition TickLevel_layout :: bcs_type where
  "TickLevel_layout = Struct [(''price'', U64), (''open_orders'', LinkedTable_layout)]"

definition Node_layout :: "bcs_type \<Rightarrow> bcs_type" where
  "Node_layout V = Struct [(''prev'', Vector U64), (''next'', Vector U64), (''value'', V)]"

definition Leaf_layout :: "bcs_type \<Rightarrow> bcs_type" where
  "Leaf_layout V = Struct [(''key'', U64), (''value'', V), (''parent'', U64)]"

definition CritbitTree_layout :: bcs_type where
  "CritbitTree_layout =
     Struct [(''root'', U64), (''internal_nodes'', Table_layout), (''leaves'', Table_layout),
             (''min_leaf'', U64), (''max_leaf'', U64), (''next_internal_node_index'', U64),
             (''next_leaf_index'', U64)]"

definition Pool_layout :: bcs_type where
  "Pool_layout =
     Struct [(''id'', Address), (''bids'', CritbitTree_layout), (''asks'', CritbitTree_layout),
             (''next_bid_order_id'', U64), (''next_ask_order_id'', U64),
             (''usr_open_orders'', Table_layout), (''taker_fee_rate'', U64),
             (''maker_rebate_rate'', U64), (''tick_size'', U64), (''lot_size'', U64)]"

definition PoolCreated_layout :: bcs_type where
  "PoolCreated_layout =
     Struct [(''pool_id'', Address), (''base_asset'', String), (''quote_asset'', String)]"

definition registry :: "string \<Rightarrow> bcs_type list \<Rightarrow> bcs_type option" where
  \<comment> \<open>the layout a registered name stands for, given the types bound to its placeholders\<close>
  "registry name typeArgs =
     (if name = ''Order'' \<and> typeArgs = [] then Some Order_layout
      else if name = ''Table'' \<and> typeArgs = [] then Some Table_layout
      else if name = ''Field'' then
        (case typeArgs of [K, V] \<Rightarrow> Some (Field_layout K V) | _ \<Rightarrow> None)
      else if name = ''TickLevel'' \<and> typeArgs = [] then Some TickLevel_layout
      else if name = ''LinkedTable'' \<and> typeArgs = [] then Some LinkedTable_layout
      else if name = ''Node'' then
        (case typeArgs of [V] \<Rightarrow> Some (Node_layout V) | _ \<Rightarrow> None)
      else if name = ''Leaf'' then
        (case typeArgs of [V] \<Rightarrow> Some (Leaf_layout V) | _ \<Rightarrow> None)
      else if name = ''CritbitTree'' \<and> typeArgs = [] then Some CritbitTree_layout
      else if name = ''Pool'' \<and> typeArgs = [] then Some Pool_layout
      else if name = ''PoolCreated'' \<and> typeArgs = [] then Some PoolCreated_layout
      else None)"

fun le_bytes :: "nat \<Rightarrow> nat \<Rightarrow> bytes" where
  \<comment> \<open>Modelled from the spec: the codec is not under src/. A fixed-width unsigned
      integer is its \<open>k\<close> bytes, least significant first.\<close>
  "le_bytes 0 n = []"
| "le_bytes (Suc k) n = of_nat (n mod 256) # le_bytes k (n div 256)"

fun le_nat :: "bytes \<Rightarrow> nat" where
  \<comment> \<open>Modelled from the spec: the codec is not under src/. The value of little-endian
      bytes.\<close>
  "le_nat [] = 0"
| "le_nat (b # bs) = unat b + 256 * le_nat bs"

fun uleb_encode :: "nat \<Rightarrow> bytes" where
  \<comment> \<open>Modelled from the spec: the codec is not under src/. The length prefix of a
      variable-length field, in the canonical format's base-128 digits, least significant
      first, the top bit set on all but the last.\<close>
  "uleb_encode n =
     (if n < 128 then [of_nat n] else of_nat (n mod 128 + 128) # uleb_encode (n div 128))"

declare uleb_encode.simps [simp del]

fun uleb_decode :: "bytes \<Rightarrow> (nat \<times> bytes) option" where
  \<comment> \<open>Modelled from the spec: the codec is not under src/. Reads a length prefix; \<open>None\<close>
      when the buffer underruns.\<close>
  "uleb_decode [] = None"
| "uleb_decode (b # bs) =
     (if unat b < 128 then Some (unat b, bs)
      else (case uleb_decode bs of
              None \<Rightarrow> None
            | Some (n, rest) \<Rightarrow> Some (unat b - 128 + 128 * n, rest)))"

fun encode_fields ::
  "(string \<times> (bcs_value \<Rightarrow> bytes option)) list \<Rightarrow> (string \<times> bcs_value) list \<Rightarrow> bytes option" where
  \<comment> \<open>Modelled from the spec: the codec is not under src/. A composite record is the
      concatenation of its fields in declared order.\<close>
  "encode_fields [] [] = Some []"
| "encode_fields ((name, enc) # fs) ((key, v) # kvs) =
     (if name = key
      then (case enc v of
              None \<Rightarrow> None
            | Some b \<Rightarrow> (case encode_fields fs kvs of None \<Rightarrow> None | Some bs \<Rightarrow> Some (b @ bs)))
      else None)"
| "encode_fields fs kvs = None"

fun encode_all :: "(bcs_value \<Rightarrow> bytes option) \<Rightarrow> bcs_value list \<Rightarrow> bytes option" where
  \<comment> \<open>Modelled from the spec: the codec is not under src/. The elements of a sequence,
      one after another.\<close>
  "encode_all enc [] = Some []"
| "encode_all enc (v # vs) =
     (case enc v of
        None \<Rightarrow> None
      | Some b \<Rightarrow> (case encode_all enc vs of None \<Rightarrow> None | Some bs \<Rightarrow> Some (b @ bs)))"

primrec encode :: "bcs_type \<Rightarrow> bcs_value \<Rightarrow> bytes option" where
  \<comment> \<open>Modelled from the spec: the codec is not under src/. \<open>None\<close> when the value is not
      a value of the type: another shape, an address that is not 32 bytes.\<close>
  "encode U8 v = (case v of VU8 w \<Rightarrow> Some [w] | _ \<Rightarrow> None)"
| "encode U64 v = (case v of VU64 w \<Rightarrow> Some (le_bytes 8 (unat w)) | _ \<Rightarrow> None)"
| "encode Bool v = (case v of VBool b \<Rightarrow> Some [if b then 1 else 0] | _ \<Rightarrow> None)"
| "encode Address v =
     (case v of VAddress a \<Rightarrow> if length a = 32 then Some a else None | _ \<Rightarrow> None)"
| "encode String v =
     (case v of
        VString s \<Rightarrow> Some (uleb_encode (length s) @ map (\<lambda>c. of_nat (of_char c)) s)
      | _ \<Rightarrow> None)"
| "encode (Vector t) v =
     (case v of
        VVector vs \<Rightarrow>
          (case encode_all (encode t) vs of
             None \<Rightarrow> None
           | Some bs \<Rightarrow> Some (uleb_encode (length vs) @ bs))
      | _ \<Rightarrow> None)"
| "encode (Struct fs) v =
     (case v of
        VStruct kvs \<Rightarrow> encode_fields (map (map_prod (\<lambda>name. name) encode) fs) kvs
      | _ \<Rightarrow> None)"

fun decode_fields ::
  "(string \<times> (bytes \<Rightarrow> (bcs_value \<times> bytes) option)) list \<Rightarrow> bytes
   \<Rightarrow> ((string \<times> bcs_value) list \<times> bytes) option" where
  \<comment> \<open>Modelled from the spec: the codec is not under src/. The fields are read strictly
      in declared order.\<close>
  "decode_fields [] bs = Some ([], bs)"
| "decode_fields ((name, dec) # fs) bs =
     (case dec bs of
        None \<Rightarrow> None
      | Some (v, rest) \<Rightarrow>
          (case decode_fields fs rest of
             None \<Rightarrow> None
           | Some (kvs, rest') \<Rightarrow> Some ((name, v) # kvs, rest')))"

fun decode_n ::
  "nat \<Rightarrow> (bytes \<Rightarrow> (bcs_value \<times> bytes) option) \<Rightarrow> bytes \<Rightarrow> (bcs_value list \<times> bytes) option" where
  \<comment> \<open>Modelled from the spec: the codec is not under src/. Reads \<open>n\<close> elements.\<close>
  "decode_n 0 dec bs = Some ([], bs)"
| "decode_n (Suc n) dec bs =
     (case dec bs of
        None \<Rightarrow> None
      | Some (v, rest) \<Rightarrow>
          (case decode_n n dec rest of
             None \<Rightarrow> None
           | Some (vs, rest') \<Rightarrow> Some (v # vs, rest')))"

primrec decode :: "bcs_type \<Rightarrow> bytes \<Rightarrow> (bcs_value \<times> bytes) option" where
  \<comment> \<open>Modelled from the spec: the codec is not under src/. Reads one value from the front
      of the buffer and returns it with the bytes left; \<open>None\<close> when the buffer underruns.\<close>
  "decode U8 bs = (case bs of [] \<Rightarrow> None | b # rest \<Rightarrow> Some (VU8 b, rest))"
| "decode U64 bs =
     (if length bs < 8 then None else Some (VU64 (of_nat (le_nat (take 8 bs))), drop 8 bs))"
| "decode Bool bs = (case bs of [] \<Rightarrow> None | b # rest \<Rightarrow> Some (VBool (b = 1), rest))"
| "decode Address bs =
     (if length bs < 32 then None else Some (VAddress (take 32 bs), drop 32 bs))"
| "decode String bs =
     (case uleb_decode bs of
        None \<Rightarrow> None
      | Some (n, rest) \<Rightarrow>
          if length rest < n then None
          else Some (VString (map (\<lambda>b. char_of (unat b)) (take n rest)), drop n rest))"
| "decode (Vector t) bs =
     (case uleb_decode bs of
        None \<Rightarrow> None
      | Some (n, rest) \<Rightarrow>
          (case decode_n n (decode t) rest of
             None \<Rightarrow> None
           | Some (vs, rest') \<Rightarrow> Some (VVector vs, rest')))"
| "decode (Struct fs) bs =
     (case decode_fields (map (map_prod (\<lambda>name. name) decode) fs) bs of
        None \<Rightarrow> None
      | Some (kvs, rest) \<Rightarrow> Some (VStruct kvs, rest))"

definition ser :: "string \<Rightarrow> bcs_type list \<Rightarrow> bcs_value \<Rightarrow> lib_error + bytes" where
  \<comment> \<open>Modelled from the spec: the codec is not under src/. Encoding by registered name.\<close>
  "ser name typeArgs v =
     (case registry name typeArgs of
        None \<Rightarrow> Inl (DecodeError name)
      | Some t \<Rightarrow> (case encode t v of None \<Rightarrow> Inl (DecodeError name) | Some bs \<Rightarrow> Inr bs))"

definition de :: "string \<Rightarrow> bytes \<Rightarrow> bcs_type list \<Rightarrow> lib_error + bcs_value" where
  \<comment> \<open>Modelled from the spec: the codec is not under src/. \<open>decode(name, buffer,
      typeArgs)\<close>: a DecodeError for an unregistered name or a buffer underrun; bytes
      left after the value are permitted.\<close>
  "de name buffer typeArgs =
     (case registry name typeArgs of
        None \<Rightarrow> Inl (DecodeError name)
      | Some t \<Rightarrow>
          (case decode t buffer of None \<Rightarrow> Inl (DecodeError name) | Some (v, rest) \<Rightarrow> Inr v))"

fun has_fields ::
  "(string \<times> (bcs_value \<Rightarrow> bool)) list \<Rightarrow> (string \<times> bcs_value) list \<Rightarrow> bool" where
  \<comment> \<open>the fields of a record are the declared ones, in declared order, each in range\<close>
  "has_fields [] [] = True"
| "has_fields ((name, p) # fs) ((key, v) # kvs) = (name = key \<and> p v \<and> has_fields fs kvs)"
| "has_fields fs kvs = False"

primrec in_range :: "bcs_type \<Rightarrow> bcs_value \<Rightarrow> bool" where
  \<comment> \<open>the in-range records of a layout: each field present, in declared order, with a
      value of its type; an address has 32 bytes\<close>
  "in_range U8 v = (case v of VU8 w \<Rightarrow> True | _ \<Rightarrow> False)"
| "in_range U64 v = (case v of VU64 w \<Rightarrow> True | _ \<Rightarrow> False)"
| "in_range Bool v = (case v of VBool b \<Rightarrow> True | _ \<Rightarrow> False)"
| "in_range Address v = (case v of VAddress a \<Rightarrow> length a = 32 | _ \<Rightarrow> False)"
| "in_range String v = (case v of VString s \<Rightarrow> True | _ \<Rightarrow> False)"
| "in_range (Vector t) v = (case v of VVector vs \<Rightarrow> list_all (in_range t) vs | _ \<Rightarrow> False)"
| "in_range (Struct fs) v =
     (case v of
        VStruct kvs \<Rightarrow> has_fields (map (map_prod (\<lambda>name. name) in_range) fs) kvs
      | _ \<Rightarrow> False)"

definition sample_order :: bcs_value where
  "sample_order =
     VStruct [(''order_id'', VU64 7), (''client_order_id'', VU64 1), (''price'', VU64 1000),
              (''original_quantity'', VU64 5), (''quantity'', VU64 3), (''is_bid'', VBool True),
              (''owner'', VAddress (replicate 32 171)), (''expire_timestamp'', VU64 1700000000000),
              (''self_matching_prevention'', VU8 0)]"

definition sample_field :: bcs_value where
  \<comment> \<open>a value of \<open>Field<u64, Node<Order>>\<close>: a queue node with a successor and no
      predecessor\<close>
  "sample_field =
     VStruct [(''id'', VAddress (replicate 32 1)), (''name'', VU64 7),
              (''value'', VStruct [(''prev'', VVector []), (''next'', VVector [VU64 8]),
                                   (''value'', sample_order)])]"

section \<open>Facts about the rounding\<close>

lemma nbits_bounds: "0 < n \<Longrightarrow> 2 ^ (nbits n - 1) \<le> n \<and> n < 2 ^ nbits n"
proof (induction n rule: nbits.induct)
  case (1 n)
  show ?case
  proof (cases "n div 2 = 0")
    case True
    with "1.prems" have "n = Suc 0" by (simp add: div_eq_0_iff)
    then show ?thesis by (simp add: nbits.simps [of "Suc 0"] nbits.simps [of 0])
  next
    case False
    then have pos: "0 < n div 2" by simp
    from "1.IH" [OF _ pos] "1.prems"
    have ih: "2 ^ (nbits (n div 2) - 1) \<le> n div 2" "n div 2 < 2 ^ nbits (n div 2)" by auto
    have nb: "nbits n = Suc (nbits (n div 2))" using "1.prems" by (simp add: nbits.simps [of n])
    have "0 < nbits (n div 2)" using pos by (simp add: nbits.simps [of "n div 2"])
    then obtain k where k: "nbits (n div 2) = Suc k" by (cases "nbits (n div 2)") auto
    from ih k have "2 * 2 ^ k \<le> n" "n < 2 * 2 ^ Suc k" by auto
    then show ?thesis by (simp add: nb k)
  qed
qed

lemma nbits_eqI:
  assumes "2 ^ k \<le> n" and "n < 2 ^ Suc k"
  shows "nbits n = Suc k"
proof -
  have pos: "0 < n" using assms(1) by (cases "n = 0") auto
  from nbits_bounds [OF pos] have b: "2 ^ (nbits n - 1) \<le> n" "n < 2 ^ nbits n" by auto
  have "(2::nat) ^ k < 2 ^ nbits n" using assms(1) b(2) by (rule order.strict_trans1)
  then have 1: "k < nbits n" by (simp only: power_strict_increasing_iff one_less_numeral_iff semiring_norm)
  have "(2::nat) ^ (nbits n - 1) < 2 ^ Suc k" using b(1) assms(2) by (rule order.strict_trans1)
  then have 2: "nbits n - 1 < Suc k" by (simp only: power_strict_increasing_iff one_less_numeral_iff semiring_norm)
  from 1 2 show ?thesis by linarith
qed

lemma f64_of_nat_exact: "n \<le> 2 ^ 53 \<Longrightarrow> f64_of_nat n = n"
proof (cases "n < 2 ^ 53")
  case True
  then show ?thesis by (simp add: f64_of_nat_def)
next
  case False
  assume "n \<le> 2 ^ 53"
  with False have n: "n = 2 ^ 53" by simp
  have nb: "nbits (2 ^ 53) = Suc 53" by (rule nbits_eqI) simp_all
  show ?thesis unfolding n f64_of_nat_def Let_def nb by simp
qed

lemma f64_of_nat_large:
  assumes "2 ^ 53 \<le> n"
  shows "2 ^ 53 \<le> f64_of_nat n"
proof -
  define e where "e = nbits n - 53"
  define q where "q = n div 2 ^ e"
  have pos: "0 < n" using assms by (cases "n = 0") auto
  from nbits_bounds [OF pos] have b: "2 ^ (nbits n - 1) \<le> n" "n < 2 ^ nbits n" by auto
  from assms b(2) have "(2::nat) ^ 53 < 2 ^ nbits n" by (rule order.strict_trans1)
  then have "53 < nbits n" by (simp only: power_strict_increasing_iff one_less_numeral_iff semiring_norm)
  then have nb: "nbits n - 1 = 52 + e" and e1: "1 \<le> e" by (auto simp: e_def)
  from b(1) have "2 ^ 52 * 2 ^ e \<le> n" by (simp only: nb power_add)
  then have q52: "2 ^ 52 \<le> q" unfolding q_def by (simp only: less_eq_div_iff_mult_less_eq zero_less_power zero_less_numeral) 
  then have "2 ^ 52 * 2 ^ e \<le> q * 2 ^ e" by (rule mult_le_mono1)
  moreover have "(2::nat) ^ 53 \<le> 2 ^ 52 * 2 ^ e"
  proof -
    have "(2::nat) ^ 52 * 2 ^ 1 \<le> 2 ^ 52 * 2 ^ e" using e1 by (intro mult_le_mono2 power_increasing) auto
    then show ?thesis by simp
  qed
  ultimately have low: "2 ^ 53 \<le> q * 2 ^ e" by (rule order.trans [rotated])
  have "q * 2 ^ e \<le> (q + 1) * 2 ^ e" by (rule mult_le_mono1) simp
  with low have up: "2 ^ 53 \<le> (q + 1) * 2 ^ e" by (rule order.trans)
  have "f64_of_nat n = q * 2 ^ e \<or> f64_of_nat n = (q + 1) * 2 ^ e"
    using assms unfolding f64_of_nat_def Let_def e_def [symmetric] q_def [symmetric]
    by (simp only: not_less [symmetric] if_False split: if_split) simp
  with low up show ?thesis by (elim disjE) (simp_all only:)
qed

lemma f64_of_int_exact: "\<bar>i\<bar> \<le> 2 ^ 53 \<Longrightarrow> f64_of_int i = i"
  by (auto simp: f64_of_int_def f64_of_nat_exact nat_le_iff)

lemma f64_of_int_le_iff:
  assumes "0 \<le> i" and "now < 2 ^ 53"
  shows "f64_of_int i \<le> now \<longleftrightarrow> i \<le> now"
proof (cases "i \<le> 2 ^ 53")
  case True
  with assms(1) show ?thesis by (simp add: f64_of_int_exact)
next
  case False
  then have "2 ^ 53 \<le> nat i" by (simp add: le_nat_iff)
  then have "2 ^ 53 \<le> f64_of_nat (nat i)" by (rule f64_of_nat_large)
  then have "int (2 ^ 53) \<le> int (f64_of_nat (nat i))" by (simp only: of_nat_le_iff)
  then have "2 ^ 53 \<le> int (f64_of_nat (nat i))" by simp
  then have "2 ^ 53 \<le> f64_of_int i" using assms(1) by (simp add: f64_of_int_def)
  with False assms(2) show ?thesis by simp
qed

section \<open>Claims about the expiry filter and the rebate\<close>

text \<open>
  C2: the expiry filter classifies a decoded order as expired exactly when its
  \<open>expire_timestamp\<close> is at most the current time: a timestamp equal to the clock
  reading is expired, one greater by 1 is not, and no grace window enters. The clock
  reading is a time value of \<open>Date.now()\<close>, at most 8640000000000000 milliseconds.
\<close>

theorem expired_iff_timestamp_le_now:
  assumes "now \<le> 8640000000000000"
  shows "(expired now (order :: 'a Order_scheme) \<longleftrightarrow> uint (expire_timestamp order) \<le> now)
       \<and> (uint (expire_timestamp order) = now \<longrightarrow> expired now order)
       \<and> (uint (expire_timestamp order) = now + 1 \<longrightarrow> \<not> expired now order)
       \<and> filter_expired now (orders :: 'a Order_scheme list)
           = filter (\<lambda>order. uint (expire_timestamp order) \<le> now) orders"
proof -
  have now: "now < 2 ^ 53" using assms by simp
  have iff: "expired now x \<longleftrightarrow> uint (expire_timestamp x) \<le> now" for x :: "'a Order_scheme"
    unfolding expired_def by (rule f64_of_int_le_iff [OF _ now]) simp
  have "expired now = (\<lambda>order :: 'a Order_scheme. uint (expire_timestamp order) \<le> now)"
    by (rule ext) (rule iff)
  then have "filter_expired now orders = filter (\<lambda>order. uint (expire_timestamp order) \<le> now) orders"
    by (simp only: filter_expired_def)
  then show ?thesis
    by (simp add: iff)
qed

theorem expired_iff_timestamp_le_now_witness:
  "(1700000000000::int) \<le> 8640000000000000
   \<and> expired 1700000000000
        \<lparr>order_id = 7, client_order_id = 1, price = 10, original_quantity = 5, quantity = 5,
         is_bid = True, owner = ''ab'', expire_timestamp = 1700000000000,
         self_matching_prevention = 0\<rparr>
   \<and> \<not> expired 1700000000000
        \<lparr>order_id = 8, client_order_id = 2, price = 10, original_quantity = 5, quantity = 3,
         is_bid = False, owner = ''cd'', expire_timestamp = 1700000000001,
         self_matching_prevention = 0\<rparr>"
  using expired_iff_timestamp_le_now [of 1700000000000
        "\<lparr>order_id = 7, client_order_id = 1, price = 10, original_quantity = 5, quantity = 5,
         is_bid = True, owner = ''ab'', expire_timestamp = 1700000000000,
         self_matching_prevention = 0\<rparr>" "[] :: Order list"]
     expired_iff_timestamp_le_now [of 1700000000000
        "\<lparr>order_id = 8, client_order_id = 2, price = 10, original_quantity = 5, quantity = 3,
         is_bid = False, owner = ''cd'', expire_timestamp = 1700000000001,
         self_matching_prevention = 0\<rparr>" "[] :: Order list"]
  by simp

lemma f64_of_nat_tie_down: "f64_of_nat 9007199254740993 = 9007199254740992"
proof -
  have nb: "nbits 9007199254740993 = Suc 53" by (rule nbits_eqI) simp_all
  show ?thesis unfolding f64_of_nat_def Let_def nb by simp
qed

text \<open>
  C3 as stated fails: the three components are parsed into doubles, so a component above
  \<open>2 ^ 53\<close> is rounded before the subtraction. With storageRebate = 9007199254740993
  and both costs 0 the computed rebate is 9007199254740992.
\<close>

theorem rebate_not_exact_counterexample:
  "rebate_of \<lparr>computationCost = 0, storageCost = 0, storageRebate = 9007199254740993,
              nonRefundableStorageFee = 0\<rparr>
   \<noteq> uint (9007199254740993 :: u64) - uint (0 :: u64) - uint (0 :: u64)"
  by (simp add: rebate_of_def js_sub_def parseInt_def f64_of_int_def f64_of_nat_tie_down
      f64_of_nat_exact)

text \<open>
  C3, amended: whenever the three components are at most \<open>2 ^ 53\<close> and their exact
  difference is at least \<open>- 2 ^ 53\<close>, the computed rebate equals storageRebate minus
  storageCost minus computationCost exactly; storageRebate = 300, storageCost = 100,
  computationCost = 50 yields 150.
\<close>

theorem rebate_exact_in_safe_range:
  assumes "uint (storageRebate cs) \<le> 2 ^ 53"
      and "uint (storageCost cs) \<le> 2 ^ 53"
      and "uint (computationCost cs) \<le> 2 ^ 53"
      and "- (2 ^ 53) \<le> uint (storageRebate cs) - uint (storageCost cs) - uint (computationCost cs)"
  shows "rebate_of cs
         = uint (storageRebate cs) - uint (storageCost cs) - uint (computationCost cs)"
proof -
  let ?a = "uint (storageRebate cs)" and ?b = "uint (storageCost cs)"
  let ?c = "uint (computationCost cs)"
  have nn: "0 \<le> ?a" "0 \<le> ?b" "0 \<le> ?c" by simp_all
  have pa: "parseInt (storageRebate cs) = ?a"
    unfolding parseInt_def using assms(1) nn(1) by (intro f64_of_int_exact) linarith
  have pb: "parseInt (storageCost cs) = ?b"
    unfolding parseInt_def using assms(2) nn(2) by (intro f64_of_int_exact) linarith
  have pc: "parseInt (computationCost cs) = ?c"
    unfolding parseInt_def using assms(3) nn(3) by (intro f64_of_int_exact) linarith
  have d1: "js_sub ?a ?b = ?a - ?b"
    unfolding js_sub_def using assms(1,2) nn by (intro f64_of_int_exact) linarith
  have d2: "js_sub (?a - ?b) ?c = ?a - ?b - ?c"
    unfolding js_sub_def using assms nn by (intro f64_of_int_exact) linarith
  show ?thesis by (simp only: rebate_of_def pa pb pc d1 d2)
qed

theorem rebate_exact_in_safe_range_witness:
  "rebate_of \<lparr>computationCost = 50, storageCost = 100, storageRebate = 300,
              nonRefundableStorageFee = 0\<rparr> = 150"
  using rebate_exact_in_safe_range
    [of "\<lparr>computationCost = 50, storageCost = 100, storageRebate = 300,
              nonRefundableStorageFee = 0\<rparr>"]
  by simp

section \<open>Facts about chunks\<close>






lemma chunks_50: "\<exists>cs. chunks xs 50 = Inr cs"
  by (simp add: chunks_def)

section \<open>Facts about the chunk loop\<close>




lemma answers_logged:
  "answers f qs w = Some (rs, w') \<Longrightarrow> answers (logged f) qs (log, w) = Some (rs, (log @ qs, w'))"
proof (induction qs arbitrary: w rs log)
  case Nil
  then show ?case by simp
next
  case (Cons q qs)
  from Cons.prems obtain r w1 rs' where
    r: "f q w = (Inr r, w1)" and rest: "answers f qs w1 = Some (rs', w')" and rs: "rs = r # rs'"
    by (auto split: prod.splits sum.splits option.splits)
  from Cons.IH [OF rest, of "log @ [q]"] r rs show ?case
    by (simp add: logged_def)
qed


section \<open>Claims about getOrders\<close>



lemma defined_append: "defined (xs @ ys) = defined xs @ defined ys"
  by (simp add: defined_def map_filter_def)




lemma stub_orders:
  "de_order stub_codec ''x'' = Inr (stub_order 1)"
  "de_order stub_codec ''xx'' = Inr (stub_order 2)"
  "de_order stub_codec ''xxx'' = Inr (stub_order 3)"
  by (simp_all add: de_order_def stub_codec_def)





section \<open>Claims about the page loops\<close>

lemma pages_from_first: "pages_from fetch c w (p # ps) w' \<Longrightarrow> fst (fetch c w) = Inr p"
  by (cases ps) auto

lemma page_loop_served:
  assumes "pages_from fetch c w (p # ps) w'" and "snd (fetch c w) = w1"
  shows "page_loop fetch p acc w1 = Some (Inr (acc @ concat (map data ps)), w')"
  using assms
proof (induction ps arbitrary: p c w w1 acc)
  case Nil
  then show ?case by (simp add: page_loop.simps)
next
  case (Cons q ps)
  from Cons.prems have more: "hasNextPage p"
    and rest: "pages_from fetch (nextCursor p) w1 (q # ps) w'" by simp_all
  obtain w2 where w2: "snd (fetch (nextCursor p) w1) = w2" by simp
  with pages_from_first [OF rest] have f: "fetch (nextCursor p) w1 = (Inr q, w2)"
    by (simp add: prod_eq_iff)
  have "page_loop fetch p acc w1 = page_loop fetch q (acc @ data q) w2"
    using more f by (subst page_loop.simps) simp
  also have "\<dots> = Some (Inr ((acc @ data q) @ concat (map data ps)), w')"
    by (rule Cons.IH [OF rest w2])
  finally show ?case by simp
qed

lemma all_pages_served:
  assumes "pages_from fetch None w ps w'"
  shows "all_pages fetch w = Some (Inr (concat (map data ps)), w')"
proof (cases ps)
  case Nil
  with assms show ?thesis by simp
next
  case (Cons p ps')
  obtain w1 where w1: "snd (fetch None w) = w1" by simp
  from assms Cons have pf: "pages_from fetch None w (p # ps') w'" by simp
  with w1 pages_from_first [OF pf] have f: "fetch None w = (Inr p, w1)"
    by (simp add: prod_eq_iff)
  from page_loop_served [OF pf w1, of "data p"] f Cons show ?thesis
    by (simp add: all_pages_def bind_io_def total_def await_def)
qed



text \<open>
  C10: every element of a sequence returned by \<open>getAllDFPages\<close> has a defined object
  id: the sequence is what the page loop collected, with the entries whose id is
  undefined removed.
\<close>

theorem getAllDFPages_ids_defined:
  assumes "getAllDFPages client parentId w = Some (Inr nodes, w')"
  shows "(\<forall>node \<in> set nodes. objectId node \<noteq> None)
       \<and> (\<exists>items. all_pages (getDynamicFields client parentId) w = Some (Inr items, w')
                  \<and> nodes = filter (\<lambda>node. objectId node \<noteq> None) items)"
proof -
  from assms obtain items where
    items: "all_pages (getDynamicFields client parentId) w = Some (Inr items, w')"
    and nodes: "nodes = filter (\<lambda>node. objectId node \<noteq> None) items"
    by (auto simp: getAllDFPages_def bind_io_def sync_def split: option.splits sum.splits)
  from nodes have "\<forall>node \<in> set nodes. objectId node \<noteq> None" by simp
  with items nodes show ?thesis by blast
qed


theorem getAllDFPages_ids_defined_witness:
  "getAllDFPages stub_client (Some ''bids'') () = Some (Inr [field ''leafB''], ())
   \<and> objectId (field ''leafB'') = Some ''leafB''"
proof -
  have "pages_from (getDynamicFields stub_client (Some ''bids'')) None ()
          [\<lparr>data = [field ''leafB'', \<lparr>objectId = None\<rparr>], nextCursor = Some ''1'',
            hasNextPage = True\<rparr>, last_page []] ()"
    by (simp add: stub_client_def stub_fields_def last_page_def)
  from all_pages_served [OF this]
  have g: "getAllDFPages stub_client (Some ''bids'') () = Some (Inr [field ''leafB''], ())"
    by (simp add: getAllDFPages_def bind_io_def sync_def last_page_def field_def)
  from getAllDFPages_ids_defined [OF g] g show ?thesis by (simp add: field_def)
qed

section \<open>Claims about retrieveExpiredOrders\<close>

lemma never_bind:
  assumes "never_invalid_pool m" and "\<And>x. never_invalid_pool (f x)"
  shows "never_invalid_pool (bind_io m f)"
  using assms unfolding never_invalid_pool_def bind_io_def
  by (auto split: option.splits prod.splits sum.splits)

lemma never_sync: "r \<noteq> Inl InvalidPoolData \<Longrightarrow> never_invalid_pool (sync r)"
  by (simp add: never_invalid_pool_def sync_def)

lemma never_await: "never_invalid_pool (total (await req))"
  by (auto simp: never_invalid_pool_def total_def await_def split: prod.splits sum.splits)

lemma lib_not_invalid: "lib r \<noteq> Inl InvalidPoolData"
  by (cases r) (simp_all add: lib_def)

lemma page_loop_not_invalid:
  assumes "page_loop fetch page items w = Some y"
  shows "fst y \<noteq> Inl InvalidPoolData"
proof (rule page_loop.raw_induct
    [where P = "\<lambda>fetch page items w y. fst y \<noteq> Inl InvalidPoolData", OF _ assms])
  fix loop fetch page items w y
  assume IH: "\<And>f p i w y. loop f p i w = Some y \<Longrightarrow> fst y \<noteq> Inl InvalidPoolData"
    and body: "(if hasNextPage page
                then case fetch (nextCursor page) w of
                       (Inl e, w') \<Rightarrow> Some (Inl (Lib e), w')
                     | (Inr page', w') \<Rightarrow> loop fetch page' (items @ data page') w'
                else Some (Inr items, w)) = Some y"
  show "fst y \<noteq> Inl InvalidPoolData"
  proof (cases "hasNextPage page")
    case False
    with body show ?thesis by auto
  next
    case True
    obtain r w1 where r: "fetch (nextCursor page) w = (r, w1)"
      by (cases "fetch (nextCursor page) w")
    show ?thesis
    proof (cases r)
      case (Inl e)
      with body True r show ?thesis by auto
    next
      case (Inr page')
      with body True r have "loop fetch page' (items @ data page') w1 = Some y" by simp
      then show ?thesis by (rule IH)
    qed
  qed
qed

lemma never_page_loop: "never_invalid_pool (page_loop fetch page items)"
  unfolding never_invalid_pool_def
proof (intro allI impI)
  fix w r w'
  assume "page_loop fetch page items w = Some (r, w')"
  from page_loop_not_invalid [OF this] show "r \<noteq> Inl InvalidPoolData" by simp
qed

lemma never_all_pages: "never_invalid_pool (all_pages fetch)"
  unfolding all_pages_def by (intro never_bind never_await never_page_loop)

lemma never_getAllDFPages: "never_invalid_pool (getAllDFPages client parentId)"
  unfolding getAllDFPages_def by (intro never_bind never_all_pages never_sync) simp

lemma map_throwing_error:
  "map_throwing f xs = Inl e \<Longrightarrow> \<exists>x \<in> set xs. f x = Inl e"
  by (induction xs) (auto split: sum.splits)

lemma resolve_chunks_not_invalid:
  assumes "\<forall>r. f r \<noteq> Inl InvalidPoolData"
  shows "fst (resolve_chunks mget f cs acc w) \<noteq> Inl InvalidPoolData"
proof (induction cs arbitrary: acc w)
  case Nil
  then show ?case by simp
next
  case (Cons c cs)
  obtain r w1 where r: "mget c w = (r, w1)" by (cases "mget c w")
  show ?case
  proof (cases r)
    case (Inl e)
    with r show ?thesis by (simp add: await_def)
  next
    case (Inr responses)
    show ?thesis
    proof (cases "map_throwing f responses")
      case (Inl e)
      from map_throwing_error [OF this] assms have "e \<noteq> InvalidPoolData" by auto
      with r Inr Inl show ?thesis by (simp add: await_def)
    next
      case (Inr vals)
      with r \<open>r = Inr responses\<close> Cons.IH [of "acc @ vals" w1] show ?thesis
        by (simp add: await_def)
    qed
  qed
qed

lemma de_order_not_invalid: "de_order bcs b \<noteq> Inl InvalidPoolData"
  by (auto simp: de_order_def split: sum.splits)

lemma de_tickLevel_not_invalid: "de_tickLevel bcs b \<noteq> Inl InvalidPoolData"
  by (auto simp: de_tickLevel_def split: sum.splits)

lemma order_of_response_not_invalid: "\<forall>r. order_of_response bcs r \<noteq> Inl InvalidPoolData"
  using de_order_not_invalid [of bcs]
  by (auto simp: order_of_response_def split: option.splits RawData.splits sum.splits)

lemma tickLevel_of_response_not_invalid:
  "\<forall>r. tickLevel_of_response bcs r \<noteq> Inl InvalidPoolData"
  using de_tickLevel_not_invalid [of bcs]
  by (auto simp: tickLevel_of_response_def split: option.splits RawData.splits sum.splits)

lemma never_resolve_chunks:
  assumes "\<forall>r. f r \<noteq> Inl InvalidPoolData"
  shows "never_invalid_pool (total (resolve_chunks mget f cs acc))"
  unfolding never_invalid_pool_def total_def
proof (intro allI impI)
  fix w r w'
  assume "Some (resolve_chunks mget f cs acc w) = Some (r, w')"
  then have "fst (resolve_chunks mget f cs acc w) = r" by simp
  with resolve_chunks_not_invalid [OF assms, where mget = mget and cs = cs and acc = acc and w = w]
  show "r \<noteq> Inl InvalidPoolData" by simp
qed

lemma chunks_not_invalid: "chunks xs n \<noteq> Inl InvalidPoolData"
  by (simp add: chunks_def)

lemma never_getOrders: "never_invalid_pool (total (getOrders client bcs ids))"
  unfolding never_invalid_pool_def total_def
proof (intro allI impI)
  fix w r w'
  assume a: "Some (getOrders client bcs ids w) = Some (r, w')"
  show "r \<noteq> Inl InvalidPoolData"
  proof (cases "chunks ids 50")
    case (Inl e)
    with a chunks_not_invalid [of ids 50] show ?thesis by (auto simp: getOrders_def)
  next
    case (Inr cs)
    with a resolve_chunks_not_invalid [where f = "order_of_response bcs"
        and mget = "multiGetObjects client" and cs = cs and acc = "[]" and w = w,
        OF order_of_response_not_invalid]
    show ?thesis by (auto simp: getOrders_def split: prod.splits sum.splits)
  qed
qed

lemma never_orderIds_streams: "never_invalid_pool (orderIds_streams client tickLevels)"
proof (induction tickLevels)
  case Nil
  then show ?case by (simp add: never_sync)
next
  case (Cons t ts)
  show ?case
    unfolding orderIds_streams.simps
    by (intro never_bind never_getAllDFPages Cons.IH never_sync) simp
qed

lemma never_pool_orders: "never_invalid_pool (pool_orders client bcs bcsBytes)"
  unfolding pool_orders_def
  by (intro never_bind never_sync never_getAllDFPages never_resolve_chunks
      never_orderIds_streams never_getOrders lib_not_invalid chunks_not_invalid
      tickLevel_of_response_not_invalid)

text \<open>
  C5: \<open>retrieveExpiredOrders\<close> ends with the error \<open>Invalid pool data type\<close> exactly when
  the pool was fetched and its payload is not a move object. When the payload is a move
  object that error is never raised, and the function returns exactly when the
  reconstruction of the pool's orders returns, with the expired ones among them.
\<close>

theorem retrieveExpiredOrders_invalid_pool_data:
  "((\<exists>w'. retrieveExpiredOrders client bcs now poolId w = Some (Inl InvalidPoolData, w'))
      \<longleftrightarrow> (case fst (getObject client (Some poolId) w) of
             Inl e \<Rightarrow> False
           | Inr response \<Rightarrow> payload response = Some Package))
   \<and> (\<forall>response bcsBytes.
        fst (getObject client (Some poolId) w) = Inr response
        \<and> payload response = Some (MoveObject bcsBytes)
        \<longrightarrow> retrieveExpiredOrders client bcs now poolId w
            = (case pool_orders client bcs bcsBytes (snd (getObject client (Some poolId) w)) of
                 None \<Rightarrow> None
               | Some (Inl e, w') \<Rightarrow> Some (Inl e, w')
               | Some (Inr orders, w') \<Rightarrow> Some (Inr (filter_expired now orders), w')))"
proof -
  obtain r w1 where g: "getObject client (Some poolId) w = (r, w1)"
    by (cases "getObject client (Some poolId) w")
  have run: "retrieveExpiredOrders client bcs now poolId w
      = (case r of
           Inl e \<Rightarrow> Some (Inl (Lib e), w1)
         | Inr response \<Rightarrow>
             (case payload response of
                None \<Rightarrow> Some (Inl TypeError, w1)
              | Some (MoveObject bcsBytes) \<Rightarrow>
                  (case pool_orders client bcs bcsBytes w1 of
                     None \<Rightarrow> None
                   | Some (Inl e, w') \<Rightarrow> Some (Inl e, w')
                   | Some (Inr orders, w') \<Rightarrow> Some (Inr (filter_expired now orders), w'))
              | Some Package \<Rightarrow> Some (Inl InvalidPoolData, w1)))"
    by (simp add: retrieveExpiredOrders_def bind_io_def total_def await_def sync_def g
        split: sum.splits option.splits RawData.splits prod.splits)
  have no: "pool_orders client bcs b w1 \<noteq> Some (Inl InvalidPoolData, w')" for b w'
    using never_pool_orders [of client bcs b] by (auto simp: never_invalid_pool_def)
  have iff: "(\<exists>w'. retrieveExpiredOrders client bcs now poolId w = Some (Inl InvalidPoolData, w'))
      \<longleftrightarrow> (case r of Inl e \<Rightarrow> False | Inr response \<Rightarrow> payload response = Some Package)"
    unfolding run using no
    by (auto split: sum.splits option.splits RawData.splits prod.splits)
  show ?thesis
    using iff by (simp add: g run)
qed

lemma stub_getAllDFPages:
  "getAllDFPages stub_client (Some ''asks'') w = Some (Inr [field ''leafA''], w)"
  "getAllDFPages stub_client (Some ''bids'') w = Some (Inr [field ''leafB''], w)"
  "getAllDFPages stub_client (Some ''qA'') w = Some (Inr [field ''a'', field ''d''], w)"
  "getAllDFPages stub_client (Some ''qB'') w = Some (Inr [field ''c'', field ''b''], w)"
proof -
  have 1: "pages_from (getDynamicFields stub_client (Some ''asks'')) None w
             [last_page [field ''leafA'']] w"
    and 2: "pages_from (getDynamicFields stub_client (Some ''bids'')) None w
          [\<lparr>data = [field ''leafB'', \<lparr>objectId = None\<rparr>], nextCursor = Some ''1'',
            hasNextPage = True\<rparr>, last_page []] w"
    and 3: "pages_from (getDynamicFields stub_client (Some ''qA'')) None w
             [last_page [field ''a'', field ''d'']] w"
    and 4: "pages_from (getDynamicFields stub_client (Some ''qB'')) None w
             [last_page [field ''c'', field ''b'']] w"
    by (simp_all add: stub_client_def stub_fields_def last_page_def)
  show "getAllDFPages stub_client (Some ''asks'') w = Some (Inr [field ''leafA''], w)"
    using all_pages_served [OF 1]
    by (simp add: getAllDFPages_def bind_io_def sync_def last_page_def field_def)
  show "getAllDFPages stub_client (Some ''bids'') w = Some (Inr [field ''leafB''], w)"
    using all_pages_served [OF 2]
    by (simp add: getAllDFPages_def bind_io_def sync_def last_page_def field_def)
  show "getAllDFPages stub_client (Some ''qA'') w = Some (Inr [field ''a'', field ''d''], w)"
    using all_pages_served [OF 3]
    by (simp add: getAllDFPages_def bind_io_def sync_def last_page_def field_def)
  show "getAllDFPages stub_client (Some ''qB'') w = Some (Inr [field ''c'', field ''b''], w)"
    using all_pages_served [OF 4]
    by (simp add: getAllDFPages_def bind_io_def sync_def last_page_def field_def)
qed

lemma stub_tickLevels:
  "resolve_chunks (multiGetObjects stub_client) (tickLevel_of_response stub_codec)
     [[Some ''leafB'', Some ''leafA'']] [] w
   = (Inr [Some (stub_tickLevel False), Some (stub_tickLevel True)], w)"
  by (simp add: stub_client_def stub_multiGet_def await_def stub_object_def move_object_def
      tickLevel_of_response_def payload_def de_tickLevel_def stub_codec_def)

lemma stub_orderIds:
  "orderIds_streams stub_client [stub_tickLevel False, stub_tickLevel True] w
   = Some (Inr [[Some ''c'', Some ''b''], [Some ''a'', Some ''d'']], w)"
  by (simp add: stub_tickLevel_def stub_getAllDFPages bind_io_def sync_def field_def)

lemma stub_getOrders:
  "getOrders stub_client stub_codec [Some ''c'', Some ''b'', Some ''a'', Some ''d''] w
   = (Inr [stub_order 3, stub_order 1, stub_order 2], w)"
proof -
  have c: "chunks [Some ''c'', Some ''b'', Some ''a'', Some ''d''] 50
           = Inr [[Some ''c'', Some ''b'', Some ''a'', Some ''d'']]"
    by (simp add: chunks_def)
  show ?thesis
    by (simp add: getOrders_def c stub_client_def stub_multiGet_def await_def stub_object_def
        move_object_def order_of_response_def payload_def stub_orders defined_def)
qed

lemma stub_pool_orders:
  "pool_orders stub_client stub_codec ''P'' w
   = Some (Inr [stub_order 3, stub_order 1, stub_order 2], w)"
proof -
  have c: "chunks [Some ''leafB'', Some ''leafA''] 50 = Inr [[Some ''leafB'', Some ''leafA'']]"
    by (simp add: chunks_def)
  have p: "lib (fromB64 stub_codec ''P'') = Inr (map of_char ''P'')"
    "lib (de_Pool stub_codec b) = Inr stub_pool" for b
    by (simp_all add: stub_codec_def lib_def)
  have ids: "Table_id (leaves (asks stub_pool)) = ''asks''"
    "Table_id (leaves (bids stub_pool)) = ''bids''"
    by (simp_all add: stub_pool_def stub_tree_def stub_table_def)
  show ?thesis
    unfolding pool_orders_def
    by (simp add: bind_io_def sync_def total_def p ids stub_getAllDFPages field_def c
        stub_tickLevels defined_def stub_orderIds stub_getOrders
        del: resolve_chunks.simps orderIds_streams.simps)
qed

lemma stub_expired:
  "filter_expired stub_now [stub_order 3, stub_order 1, stub_order 2]
   = [stub_order 3, stub_order 1]"
proof -
  have e: "expired stub_now (stub_order n) \<longleftrightarrow> uint (expire_timestamp (stub_order n)) \<le> stub_now"
    for n
    unfolding expired_def by (rule f64_of_int_le_iff) (simp_all add: stub_now_def)
  have "expired stub_now (stub_order 3)" "expired stub_now (stub_order 1)"
    "\<not> expired stub_now (stub_order 2)"
    by (simp_all only: e) (simp_all add: stub_order_def stub_now_def)
  then show ?thesis
    by (simp add: filter_expired_def)
qed

theorem retrieveExpiredOrders_invalid_pool_data_witness:
  "retrieveExpiredOrders stub_client stub_codec stub_now ''pool1'' ()
     = Some (Inr [stub_order 3, stub_order 1], ())
   \<and> (\<exists>w'. retrieveExpiredOrders stub_client stub_codec stub_now ''pkg'' ()
            = Some (Inl InvalidPoolData, w'))"
proof -
  have g: "getObject stub_client (Some ''pool1'') () = (Inr (move_object ''P''), ())"
    "getObject stub_client (Some ''pkg'') ()
     = (Inr \<lparr>response_data = Some \<lparr>object_bcs = Some Package\<rparr>, response_error = None\<rparr>, ())"
    by (simp_all add: stub_client_def stub_object_def)
  have p: "payload (move_object ''P'') = Some (MoveObject ''P'')"
    "payload \<lparr>response_data = Some \<lparr>object_bcs = Some Package\<rparr>, response_error = None\<rparr>
     = Some Package"
    by (simp_all add: payload_def move_object_def)
  from retrieveExpiredOrders_invalid_pool_data
         [of stub_client stub_codec stub_now "''pool1''" "()"]
  have a: "retrieveExpiredOrders stub_client stub_codec stub_now ''pool1'' ()
     = Some (Inr [stub_order 3, stub_order 1], ())"
    by (simp add: g p stub_pool_orders stub_expired)
  from retrieveExpiredOrders_invalid_pool_data
         [of stub_client stub_codec stub_now "''pkg''" "()"]
  have b: "\<exists>w'. retrieveExpiredOrders stub_client stub_codec stub_now ''pkg'' ()
            = Some (Inl InvalidPoolData, w')"
    by (simp add: g p)
  from a b show ?thesis by simp
qed

section \<open>Claims about createCleanUpTransaction\<close>

lemma extends_refl: "extends tx tx"
  by (simp add: extends_def)

lemma extends_trans: "extends a b \<Longrightarrow> extends b c \<Longrightarrow> extends a c"
  by (auto simp: extends_def intro: prefix_order.trans)

lemma prefix_nth: "prefix xs ys \<Longrightarrow> i < length xs \<Longrightarrow> ys ! i = xs ! i"
  by (auto simp: prefix_def nth_append)

lemma prefix_length: "prefix xs ys \<Longrightarrow> length xs \<le> length ys"
  by (auto simp: prefix_def)

lemma input_at_extends:
  assumes "extends tx tx'" and "input_at tx a = Some i"
  shows "input_at tx' a = Some i"
proof (cases a)
  case (Input k)
  with assms(2) have k: "k < length (inputs tx)" and i: "inputs tx ! k = i"
    by (auto simp: input_at_def split: if_splits)
  from assms(1) have p: "prefix (inputs tx) (inputs tx')" by (simp add: extends_def)
  from prefix_nth [OF p k] prefix_length [OF p] k i Input show ?thesis
    by (simp add: input_at_def)
next
  case (Result j)
  with assms(2) show ?thesis by (simp add: input_at_def)
qed

lemma object_at_extends:
  assumes "extends tx tx'" and "object_at norm tx a = Some s"
  shows "object_at norm tx' a = Some s"
proof -
  from assms(2) obtain v where "input_at tx a = Some (ObjectInput v)" and s: "s = norm v"
    by (auto simp: object_at_def split: option.splits tx_input.splits)
  from input_at_extends [OF assms(1) this(1)] s show ?thesis
    by (simp add: object_at_def)
qed

lemma inputs_at_range:
  assumes "prefix (front @ mid) (inputs tx)"
  shows "map (input_at tx) (map Input [length front ..< length front + length mid])
         = map Some mid"
proof (rule nth_equalityI)
  show "length (map (input_at tx) (map Input [length front ..< length front + length mid]))
        = length (map Some mid)" by simp
next
  fix i
  assume "i < length (map (input_at tx) (map Input [length front ..< length front + length mid]))"
  then have i: "i < length mid" by simp
  then have lt: "length front + i < length (front @ mid)" by simp
  from prefix_nth [OF assms lt] have "inputs tx ! (length front + i) = mid ! i"
    by (simp add: nth_append)
  moreover from prefix_length [OF assms] lt have "length front + i < length (inputs tx)"
    by linarith
  ultimately show "map (input_at tx) (map Input [length front ..< length front + length mid]) ! i
        = map Some mid ! i"
    using i by (simp add: input_at_def)
qed

lemma tx_map_pure:
  "tx_map (\<lambda>order. tx_pure (g order) ty) os tx
   = (map Input [length (inputs tx) ..< length (inputs tx) + length os],
      tx\<lparr>inputs := inputs tx @ map (\<lambda>order. PureInput (g order) ty) os\<rparr>)"
proof (induction os arbitrary: tx)
  case Nil
  then show ?case by simp
next
  case (Cons order os)
  have u: "[n ..< Suc (n + k)] = n # [Suc n ..< Suc (n + k)]" for n k :: nat
    by (subst upt_rec) simp
  have p: "tx_pure (g order) ty tx
           = (Input (length (inputs tx)), tx\<lparr>inputs := inputs tx @ [PureInput (g order) ty]\<rparr>)"
    by (simp add: tx_pure_def tx_input_add_def)
  show ?case
    by (simp add: p Cons.IH u del: upt_Suc)
qed

lemma find_object_found:
  "find_object norm v is k = Some j
   \<Longrightarrow> k \<le> j \<and> j - k < length is \<and> (\<exists>v'. is ! (j - k) = ObjectInput v' \<and> norm v = norm v')"
proof (induction norm v "is" k rule: find_object.induct)
  case (1 norm v k)
  then show ?case by simp
next
  case (2 norm v p ty rest k)
  then have ih: "Suc k \<le> j" "j - Suc k < length rest"
    "\<exists>v'. rest ! (j - Suc k) = ObjectInput v' \<and> norm v = norm v'" by simp_all
  from ih(1) have "j - k = Suc (j - Suc k)" by linarith
  with ih show ?case by simp
next
  case (3 norm v v' rest k)
  show ?case
  proof (cases "norm v = norm v'")
    case True
    with "3.prems" show ?thesis by auto
  next
    case False
    with 3 have ih: "Suc k \<le> j" "j - Suc k < length rest"
      "\<exists>v'. rest ! (j - Suc k) = ObjectInput v' \<and> norm v = norm v'" by simp_all
    from ih(1) have "j - k = Suc (j - Suc k)" by linarith
    with ih show ?thesis by simp
  qed
qed

lemma tx_object_spec:
  assumes "tx_object norm v tx = (a, tx1)"
  shows "extends tx tx1 \<and> transactions tx1 = transactions tx \<and> object_at norm tx1 a = Some (norm v)"
proof (cases "find_object norm v (inputs tx) 0")
  case None
  with assms have "a = Input (length (inputs tx))"
    and "tx1 = tx\<lparr>inputs := inputs tx @ [ObjectInput v]\<rparr>"
    by (simp_all add: tx_object_def tx_input_add_def)
  then show ?thesis by (simp add: extends_def object_at_def input_at_def)
next
  case (Some j)
  with assms have a: "a = Input j" and tx1: "tx1 = tx" by (simp_all add: tx_object_def)
  from find_object_found [OF Some] obtain v' where
    "j < length (inputs tx)" "inputs tx ! j = ObjectInput v'" "norm v = norm v'" by auto
  with a tx1 show ?thesis by (simp add: extends_refl object_at_def input_at_def)
qed

lemma move_calls_append: "move_calls (xs @ ys) = move_calls xs @ move_calls ys"
  by (induction xs rule: move_calls.induct) simp_all

lemma vec_at_range:
  assumes "prefix (cmds @ [MakeMoveVec ty (map Input [length front ..< length front + length mid])]
                   @ rest) (transactions tx)"
      and "prefix (front @ mid) (inputs tx)"
  shows "vec_at tx (Result (length cmds)) = Some (ty, map Some mid)"
proof -
  let ?c = "MakeMoveVec ty (map Input [length front ..< length front + length mid])"
  have lt: "length cmds < length (cmds @ [?c] @ rest)" by simp
  from prefix_nth [OF assms(1) lt] have c: "transactions tx ! length cmds = ?c"
    by (simp add: nth_append)
  from prefix_length [OF assms(1)] lt have "length cmds < length (transactions tx)" by linarith
  with c inputs_at_range [OF assms(2)] show ?thesis by (simp add: vec_at_def)
qed

lemma add_clean_up_spec:
  "\<exists>poolArg clockArg.
     extends tx (add_clean_up norm tx poolOrder)
     \<and> move_calls (transactions (add_clean_up norm tx poolOrder))
         = move_calls (transactions tx)
           @ [(clean_up_target,
               [poolArg, clockArg, Result (length (transactions tx)),
                Result (Suc (length (transactions tx)))],
               [base_asset (pool poolOrder), quote_asset (pool poolOrder)])]
     \<and> (\<forall>tx'. extends (add_clean_up norm tx poolOrder) tx'
            \<longrightarrow> read_call norm tx'
                  (clean_up_target,
                   [poolArg, clockArg, Result (length (transactions tx)),
                    Result (Suc (length (transactions tx)))],
                   [base_asset (pool poolOrder), quote_asset (pool poolOrder)])
                = Some (expected_call norm poolOrder))"
proof -
  let ?os = "expiredOrders poolOrder"
  let ?ids = "map (\<lambda>order. PureInput (PureU64 (order_id order)) ''u64'') ?os"
  let ?owners = "map (\<lambda>order. PureInput (PureAddress (owner order)) ''address'') ?os"
  let ?n = "length (inputs tx)"
  let ?m = "length (transactions tx)"
  let ?idArgs = "map Input [?n ..< ?n + length ?os]"
  let ?ownerArgs = "map Input [?n + length ?os ..< ?n + length ?os + length ?os]"
  let ?v1 = "MakeMoveVec ''u64'' ?idArgs"
  let ?v2 = "MakeMoveVec ''address'' ?ownerArgs"
  define tx4 where
    "tx4 = tx\<lparr>inputs := inputs tx @ ?ids @ ?owners, transactions := transactions tx @ [?v1, ?v2]\<rparr>"
  obtain poolArg tx5 where o1: "tx_object norm (pool_id (pool poolOrder)) tx4 = (poolArg, tx5)"
    by (cases "tx_object norm (pool_id (pool poolOrder)) tx4")
  obtain clockArg tx6 where o2: "tx_object norm ''0x6'' tx5 = (clockArg, tx6)"
    by (cases "tx_object norm ''0x6'' tx5")
  let ?call = "MoveCall clean_up_target [poolArg, clockArg, Result ?m, Result (Suc ?m)]
                 [base_asset (pool poolOrder), quote_asset (pool poolOrder)]"
  define txf where "txf = tx6\<lparr>transactions := transactions tx6 @ [?call]\<rparr>"
  have run: "add_clean_up norm tx poolOrder = txf"
    by (simp add: add_clean_up_def tx_map_pure tx_add_def tx4_def [symmetric] o1 o2 txf_def)
  from tx_object_spec [OF o1] have s5: "extends tx4 tx5" "transactions tx5 = transactions tx4"
    "object_at norm tx5 poolArg = Some (norm (pool_id (pool poolOrder)))" by simp_all
  from tx_object_spec [OF o2] have s6: "extends tx5 tx6" "transactions tx6 = transactions tx5"
    "object_at norm tx6 clockArg = Some (norm ''0x6'')" by simp_all
  have e04: "extends tx tx4" by (simp add: extends_def tx4_def)
  have e6f: "extends tx6 txf" by (simp add: extends_def txf_def)
  have e4f: "extends tx4 txf" using s5(1) s6(1) e6f by (blast intro: extends_trans)
  have cmds: "transactions txf = transactions tx @ [?v1, ?v2, ?call]"
    by (simp add: txf_def s6(2) s5(2) tx4_def)
  have calls: "move_calls (transactions txf)
               = move_calls (transactions tx)
                 @ [(clean_up_target, [poolArg, clockArg, Result ?m, Result (Suc ?m)],
                    [base_asset (pool poolOrder), quote_asset (pool poolOrder)])]"
    by (simp add: cmds move_calls_append)
  have reads: "read_call norm tx'
                 (clean_up_target, [poolArg, clockArg, Result ?m, Result (Suc ?m)],
                  [base_asset (pool poolOrder), quote_asset (pool poolOrder)])
               = Some (expected_call norm poolOrder)" if ext: "extends txf tx'" for tx'
  proof -
    have e5: "extends tx5 tx'" using s6(1) e6f ext by (blast intro: extends_trans)
    have e6: "extends tx6 tx'" using e6f ext by (blast intro: extends_trans)
    have e4: "extends tx4 tx'" using e4f ext by (blast intro: extends_trans)
    have a1: "object_at norm tx' poolArg = Some (norm (pool_id (pool poolOrder)))"
      by (rule object_at_extends [OF e5 s5(3)])
    have a2: "object_at norm tx' clockArg = Some (norm ''0x6'')"
      by (rule object_at_extends [OF e6 s6(3)])
    from ext have pc: "prefix (transactions tx @ [?v1, ?v2, ?call]) (transactions tx')"
      by (simp add: extends_def cmds)
    from e4 have pi: "prefix (inputs tx @ ?ids @ ?owners) (inputs tx')"
      by (simp add: extends_def tx4_def)
    have pi1: "prefix (inputs tx @ ?ids) (inputs tx')"
      using pi by (metis append.assoc append_prefixD)
    have pi2: "prefix ((inputs tx @ ?ids) @ ?owners) (inputs tx')"
      using pi by simp
    have pc1: "prefix (transactions tx
                  @ [MakeMoveVec ''u64'' (map Input [?n ..< ?n + length ?ids])] @ [?v2, ?call])
                 (transactions tx')"
      using pc by simp
    have pc2: "prefix ((transactions tx @ [?v1])
                  @ [MakeMoveVec ''address''
                       (map Input [length (inputs tx @ ?ids)
                                   ..< length (inputs tx @ ?ids) + length ?owners])] @ [?call])
                 (transactions tx')"
      using pc by simp
    from vec_at_range [OF pc1 pi1] have a3: "vec_at tx' (Result ?m) = Some (''u64'', map Some ?ids)"
      by simp
    from vec_at_range [OF pc2 pi2]
    have a4: "vec_at tx' (Result (Suc ?m)) = Some (''address'', map Some ?owners)"
      by simp
    show ?thesis
      by (simp add: read_call_def a1 a2 a3 a4 expected_call_def comp_def)
  qed
  show ?thesis
    unfolding run using e04 e4f calls reads
    by (intro exI [of _ poolArg] exI [of _ clockArg]) (blast intro: extends_trans)
qed

lemma clean_up_fold:
  assumes "extends (foldl (add_clean_up norm) tx poolOrders) tx'"
  shows "map (read_call norm tx')
           (move_calls (transactions (foldl (add_clean_up norm) tx poolOrders)))
         = map (read_call norm tx') (move_calls (transactions tx))
           @ map (\<lambda>poolOrder. Some (expected_call norm poolOrder)) poolOrders"
  using assms
proof (induction poolOrders arbitrary: tx)
  case Nil
  then show ?case by simp
next
  case (Cons po pos)
  let ?tx1 = "add_clean_up norm tx po"
  let ?txf = "foldl (add_clean_up norm) ?tx1 pos"
  from Cons.prems have ext: "extends ?txf tx'" by simp
  have grow: "extends t (foldl (add_clean_up norm) t ps)" for t ps
  proof (induction ps arbitrary: t)
    case Nil
    show ?case by (simp add: extends_refl)
  next
    case (Cons p ps)
    from add_clean_up_spec [of t norm p] have "extends t (add_clean_up norm t p)" by blast
    with Cons [of "add_clean_up norm t p"] show ?case by (auto intro: extends_trans)
  qed
  from grow [of ?tx1 pos] ext have e1: "extends ?tx1 tx'" by (rule extends_trans)
  from add_clean_up_spec [of tx norm po] obtain poolArg clockArg where
    calls: "move_calls (transactions ?tx1)
            = move_calls (transactions tx)
              @ [(clean_up_target,
                  [poolArg, clockArg, Result (length (transactions tx)),
                   Result (Suc (length (transactions tx)))],
                  [base_asset (pool po), quote_asset (pool po)])]"
    and reads: "\<forall>tx'. extends ?tx1 tx'
            \<longrightarrow> read_call norm tx'
                  (clean_up_target,
                   [poolArg, clockArg, Result (length (transactions tx)),
                    Result (Suc (length (transactions tx)))],
                   [base_asset (pool po), quote_asset (pool po)])
                = Some (expected_call norm po)"
    by blast
  from reads e1 have r: "read_call norm tx'
                  (clean_up_target,
                   [poolArg, clockArg, Result (length (transactions tx)),
                    Result (Suc (length (transactions tx)))],
                   [base_asset (pool po), quote_asset (pool po)])
                = Some (expected_call norm po)" by blast
  from Cons.IH [OF ext] show ?case
    by (simp add: calls r)
qed

text \<open>
  C1 as stated fails: the loop has no test on the expired-order list, so a pair whose
  list is empty adds a cleanup instruction too, with two empty vectors.
\<close>

theorem clean_up_call_for_empty_list_counterexample:
  "clean_up_calls (\<lambda>v. v)
     (clean_up_block (\<lambda>v. v) [\<lparr>pool = stub_created, expiredOrders = []\<rparr>])
   = [Some \<lparr>call_target = clean_up_target, call_pool = Some ''pool1'',
            call_clock = Some ''0x6'', call_order_ids = Some (''u64'', []),
            call_order_owners = Some (''address'', []),
            call_type_arguments = [''BASE'', ''QUOTE'']\<rparr>]"
  by (simp add: clean_up_calls_def clean_up_block_def add_clean_up_def tx_add_def
      tx_object_def tx_input_add_def stub_created_def read_call_def object_at_def
      input_at_def vec_at_def)

text \<open>
  C1, amended: for every input list of (pool, expired-order-list) pairs,
  \<open>createCleanUpTransaction\<close> adds exactly one cleanup instruction to the batch for each
  pair, in the order of the pairs, whether or not the pair's expired-order list is empty;
  each instruction carries the pool's id, the clock object \<open>0x6\<close>, the list of the expired
  order ids, the parallel list of their owners, and the pool's base and quote asset type
  parameters unchanged. The block returned is this batch.
\<close>

theorem createCleanUpTransaction_one_call_per_pair:
  "clean_up_calls norm (clean_up_block norm poolOrders)
     = map (\<lambda>poolOrder. Some (expected_call norm poolOrder)) poolOrders
   \<and> length (move_calls (transactions (clean_up_block norm poolOrders))) = length poolOrders
   \<and> (devInspectTransactionBlock client (clean_up_block norm poolOrders) sender w
        = (Inr costSummary, w')
      \<longrightarrow> createCleanUpTransaction client norm poolOrders w
          = (Inr (rebate_of costSummary, clean_up_block norm poolOrders), w'))"
proof -
  let ?tx = "clean_up_block norm poolOrders"
  from clean_up_fold [of norm "\<lparr>inputs = [], transactions = []\<rparr>" poolOrders ?tx]
  have calls: "clean_up_calls norm ?tx
               = map (\<lambda>poolOrder. Some (expected_call norm poolOrder)) poolOrders"
    by (simp add: clean_up_calls_def clean_up_block_def extends_refl)
  then have "length (clean_up_calls norm ?tx) = length poolOrders" by simp
  then have count: "length (move_calls (transactions ?tx)) = length poolOrders"
    by (simp add: clean_up_calls_def)
  have "devInspectTransactionBlock client ?tx sender w = (Inr costSummary, w')
        \<longrightarrow> createCleanUpTransaction client norm poolOrders w
            = (Inr (rebate_of costSummary, ?tx), w')"
    by (simp add: createCleanUpTransaction_def await_def Let_def)
  with calls count show ?thesis by simp
qed

lemma stub_rebate: "rebate_of stub_costs = 150"
  by (simp add: rebate_of_def stub_costs_def parseInt_def js_sub_def f64_of_int_exact)

theorem createCleanUpTransaction_one_call_per_pair_witness:
  "createCleanUpTransaction stub_client (\<lambda>v. v)
     [\<lparr>pool = stub_created, expiredOrders = [stub_order 3, stub_order 1]\<rparr>] ()
   = (Inr (150, clean_up_block (\<lambda>v. v)
                  [\<lparr>pool = stub_created, expiredOrders = [stub_order 3, stub_order 1]\<rparr>]), ())
   \<and> clean_up_calls (\<lambda>v. v)
        (clean_up_block (\<lambda>v. v)
           [\<lparr>pool = stub_created, expiredOrders = [stub_order 3, stub_order 1]\<rparr>])
     = [Some \<lparr>call_target = clean_up_target, call_pool = Some ''pool1'',
              call_clock = Some ''0x6'',
              call_order_ids = Some (''u64'', [Some (PureInput (PureU64 3) ''u64''),
                                               Some (PureInput (PureU64 1) ''u64'')]),
              call_order_owners = Some (''address'',
                                        [Some (PureInput (PureAddress ''aa'') ''address''),
                                         Some (PureInput (PureAddress ''aa'') ''address'')]),
              call_type_arguments = [''BASE'', ''QUOTE'']\<rparr>]"
  using createCleanUpTransaction_one_call_per_pair
    [of "\<lambda>v. v" "[\<lparr>pool = stub_created, expiredOrders = [stub_order 3, stub_order 1]\<rparr>]"
        stub_client "()" stub_costs "()"]
  by (simp add: stub_client_def stub_rebate expected_call_def stub_created_def stub_order_def)

section \<open>Claims about the codec\<close>

lemma unat_byte: "n < 256 \<Longrightarrow> unat (of_nat n :: u8) = n"
  by (simp add: unat_of_nat)

lemma length_le_bytes: "length (le_bytes k n) = k"
  by (induction k arbitrary: n) simp_all

lemma le_nat_le_bytes: "le_nat (le_bytes k n) = n mod 256 ^ k"
proof (induction k arbitrary: n)
  case 0
  then show ?case by simp
next
  case (Suc k)
  have "le_nat (le_bytes (Suc k) n) = n mod 256 + 256 * ((n div 256) mod 256 ^ k)"
    by (simp add: Suc.IH unat_byte)
  also have "\<dots> = n mod (256 * 256 ^ k)"
    by (simp add: mod_mult2_eq)
  finally show ?case by simp
qed

lemma u64_round_trip: "of_nat (le_nat (le_bytes 8 (unat (w :: u64)))) = w"
proof -
  have "unat w < 256 ^ 8" using unsigned_less [of w, where ?'a = nat] by simp
  then show ?thesis by (simp add: le_nat_le_bytes)
qed

lemma uleb_round_trip: "uleb_decode (uleb_encode n @ rest) = Some (n, rest)"
proof (induction n rule: uleb_encode.induct)
  case (1 n)
  show ?case
  proof (cases "n < 128")
    case True
    then show ?thesis by (simp add: uleb_encode.simps [of n] unat_byte)
  next
    case False
    define byte :: u8 where "byte = of_nat (n mod 128 + 128)"
    have b: "unat byte = n mod 128 + 128"
      unfolding byte_def by (rule unat_byte) simp
    from False "1.IH" have ih: "uleb_decode (uleb_encode (n div 128) @ rest) = Some (n div 128, rest)"
      by simp
    have "uleb_encode n = byte # uleb_encode (n div 128)"
      unfolding byte_def using False by (subst uleb_encode.simps) (simp only: if_False)
    then show ?thesis by (simp add: b ih)
  qed
qed

lemma string_round_trip:
  "map (\<lambda>b. char_of (unat b)) (map (\<lambda>c. of_nat (of_char c) :: u8) s) = s"
proof -
  have "char_of (unat (of_nat (of_char c) :: u8)) = c" for c :: char
  proof -
    have "(of_char c :: nat) < 256" by (rule nat_of_char_less_256)
    then have "unat (of_nat (of_char c) :: u8) = of_char c" by (rule unat_byte)
    then show ?thesis by simp
  qed
  then show ?thesis by (simp add: comp_def)
qed

lemma string_round_trip_comp:
  "map ((\<lambda>b. char_of (unat b)) \<circ> (\<lambda>c. of_nat (of_char c) :: u8)) s = s"
  using string_round_trip [of s] by (simp only: map_map)

lemma encode_all_round_trip:
  assumes "\<And>v b rest. v \<in> set vs \<Longrightarrow> enc v = Some b \<Longrightarrow> dec (b @ rest) = Some (v, rest)"
      and "encode_all enc vs = Some bs"
  shows "decode_n (length vs) dec (bs @ rest) = Some (vs, rest)"
  using assms
proof (induction vs arbitrary: bs)
  case Nil
  then show ?case by simp
next
  case (Cons v vs)
  from Cons.prems(2) obtain b bs' where b: "enc v = Some b"
    and bs': "encode_all enc vs = Some bs'" and bs: "bs = b @ bs'"
    by (auto split: option.splits)
  from Cons.prems(1) [of v b "bs' @ rest"] b have d: "dec (b @ bs' @ rest) = Some (v, bs' @ rest)"
    by simp
  from Cons.IH [OF _ bs'] Cons.prems(1)
  have "decode_n (length vs) dec (bs' @ rest) = Some (vs, rest)" by simp
  with d bs show ?case by simp
qed

lemma encode_fields_round_trip:
  assumes "\<And>f v b rest. f \<in> set fs \<Longrightarrow> encode (snd f) v = Some b
             \<Longrightarrow> decode (snd f) (b @ rest) = Some (v, rest)"
      and "encode_fields (map (map_prod (\<lambda>name. name) encode) fs) kvs = Some bs"
  shows "decode_fields (map (map_prod (\<lambda>name. name) decode) fs) (bs @ rest) = Some (kvs, rest)"
  using assms
proof (induction fs arbitrary: kvs bs)
  case Nil
  then show ?case by (cases kvs) simp_all
next
  case (Cons f fs)
  obtain name t where f: "f = (name, t)" by (cases f)
  from Cons.prems(2) f obtain v kvs' where kvs: "kvs = (name, v) # kvs'"
    by (cases kvs) (auto split: if_splits)
  from Cons.prems(2) f kvs obtain b bs' where b: "encode t v = Some b"
    and bs': "encode_fields (map (map_prod (\<lambda>name. name) encode) fs) kvs' = Some bs'"
    and bs: "bs = b @ bs'"
    by (auto split: option.splits)
  from Cons.prems(1) [of f v b "bs' @ rest"] f b
  have d: "decode t (b @ bs' @ rest) = Some (v, bs' @ rest)" by simp
  from Cons.IH [OF _ bs'] Cons.prems(1)
  have "decode_fields (map (map_prod (\<lambda>name. name) decode) fs) (bs' @ rest) = Some (kvs', rest)"
    by simp
  with d bs f kvs show ?case by simp
qed

lemma encode_decode:
  "encode t v = Some bs \<Longrightarrow> decode t (bs @ rest) = Some (v, rest)"
proof (induction t arbitrary: v bs rest)
  case U8
  then show ?case by (cases v) auto
next
  case U64
  then show ?case by (cases v) (auto simp: length_le_bytes u64_round_trip)
next
  case Bool
  then show ?case by (cases v) auto
next
  case Address
  then show ?case by (cases v) (auto split: if_splits)
next
  case String
  then show ?case
    by (cases v) (auto simp: uleb_round_trip string_round_trip_comp)
next
  case (Vector t)
  from Vector.prems obtain vs bs' where v: "v = VVector vs"
    and bs': "encode_all (encode t) vs = Some bs'" and bs: "bs = uleb_encode (length vs) @ bs'"
    by (cases v) (auto split: option.splits)
  from encode_all_round_trip [of vs "encode t" "decode t", OF _ bs'] Vector.IH
  have "decode_n (length vs) (decode t) (bs' @ rest) = Some (vs, rest)" by blast
  with v bs show ?case by (simp add: uleb_round_trip)
next
  case (Struct fs)
  from Struct.prems obtain kvs where v: "v = VStruct kvs"
    and e: "encode_fields (map (map_prod (\<lambda>name. name) encode) fs) kvs = Some bs"
    by (cases v) auto
  have "decode_fields (map (map_prod (\<lambda>name. name) decode) fs) (bs @ rest) = Some (kvs, rest)"
  proof (rule encode_fields_round_trip [OF _ e])
    fix f v b rest
    assume "f \<in> set fs" and "encode (snd f) v = Some b"
    moreover have "snd f \<in> Basic_BNFs.snds f" by (cases f) simp
    ultimately show "decode (snd f) (b @ rest) = Some (v, rest)"
      using Struct.IH by blast
  qed
  with v show ?case by simp
qed

lemma in_range_encode_all:
  assumes "\<And>v. v \<in> set vs \<Longrightarrow> in_range t v \<Longrightarrow> encode t v \<noteq> None"
      and "list_all (in_range t) vs"
  shows "encode_all (encode t) vs \<noteq> None"
  using assms by (induction vs) (auto split: option.splits)

lemma in_range_encode_fields:
  assumes "\<And>f v. f \<in> set fs \<Longrightarrow> in_range (snd f) v \<Longrightarrow> encode (snd f) v \<noteq> None"
      and "has_fields (map (map_prod (\<lambda>name. name) in_range) fs) kvs"
  shows "encode_fields (map (map_prod (\<lambda>name. name) encode) fs) kvs \<noteq> None"
  using assms
proof (induction fs arbitrary: kvs)
  case Nil
  then show ?case by (cases kvs) simp_all
next
  case (Cons f fs)
  obtain name t where f: "f = (name, t)" by (cases f)
  from Cons.prems(2) f obtain v kvs' where kvs: "kvs = (name, v) # kvs'"
    and v: "in_range t v"
    and rest: "has_fields (map (map_prod (\<lambda>name. name) in_range) fs) kvs'"
    by (cases kvs) auto
  from Cons.prems(1) [of f v] f v have "encode t v \<noteq> None" by simp
  moreover from Cons.IH [OF _ rest] Cons.prems(1)
  have "encode_fields (map (map_prod (\<lambda>name. name) encode) fs) kvs' \<noteq> None" by simp
  ultimately show ?case using f kvs by (auto split: option.splits)
qed

lemma in_range_encodes: "in_range t v \<Longrightarrow> encode t v \<noteq> None"
proof (induction t arbitrary: v)
  case U8
  then show ?case by (cases v) simp_all
next
  case U64
  then show ?case by (cases v) simp_all
next
  case Bool
  then show ?case by (cases v) simp_all
next
  case Address
  then show ?case by (cases v) simp_all
next
  case String
  then show ?case by (cases v) simp_all
next
  case (Vector t)
  then obtain vs where v: "v = VVector vs" and all: "list_all (in_range t) vs"
    by (cases v) auto
  from in_range_encode_all [OF _ all] Vector.IH have "encode_all (encode t) vs \<noteq> None" by blast
  with v show ?case by (auto split: option.splits)
next
  case (Struct fs)
  then obtain kvs where v: "v = VStruct kvs"
    and h: "has_fields (map (map_prod (\<lambda>name. name) in_range) fs) kvs"
    by (cases v) auto
  have "encode_fields (map (map_prod (\<lambda>name. name) encode) fs) kvs \<noteq> None"
  proof (rule in_range_encode_fields [OF _ h])
    fix f v
    assume "f \<in> set fs" and "in_range (snd f) v"
    moreover have "snd f \<in> Basic_BNFs.snds f" by (cases f) simp
    ultimately show "encode (snd f) v \<noteq> None" using Struct.IH by blast
  qed
  with v show ?case by simp
qed

text \<open>
  C9: for every registered layout (Order, Table, Field<K,V>, TickLevel, LinkedTable,
  Node<V>, Leaf<V>, CritbitTree, Pool, PoolCreated, the placeholders bound to any types)
  and every in-range record of it, the record encodes, and decoding the encoding, with or
  without bytes after it, gives the record back.
\<close>

theorem registered_layouts_round_trip:
  "(registry ''Order'' [] = Some Order_layout \<and> registry ''Table'' [] = Some Table_layout
    \<and> registry ''Field'' [K, V] = Some (Field_layout K V)
    \<and> registry ''TickLevel'' [] = Some TickLevel_layout
    \<and> registry ''LinkedTable'' [] = Some LinkedTable_layout
    \<and> registry ''Node'' [V] = Some (Node_layout V)
    \<and> registry ''Leaf'' [V] = Some (Leaf_layout V)
    \<and> registry ''CritbitTree'' [] = Some CritbitTree_layout
    \<and> registry ''Pool'' [] = Some Pool_layout
    \<and> registry ''PoolCreated'' [] = Some PoolCreated_layout)
   \<and> (registry name typeArgs = Some layout \<and> in_range layout rec
      \<longrightarrow> (\<exists>bs. ser name typeArgs rec = Inr bs
               \<and> de name bs typeArgs = Inr rec
               \<and> de name (bs @ trailing) typeArgs = Inr rec))"
proof -
  have reg: "registry ''Order'' [] = Some Order_layout \<and> registry ''Table'' [] = Some Table_layout
    \<and> registry ''Field'' [K, V] = Some (Field_layout K V)
    \<and> registry ''TickLevel'' [] = Some TickLevel_layout
    \<and> registry ''LinkedTable'' [] = Some LinkedTable_layout
    \<and> registry ''Node'' [V] = Some (Node_layout V)
    \<and> registry ''Leaf'' [V] = Some (Leaf_layout V)
    \<and> registry ''CritbitTree'' [] = Some CritbitTree_layout
    \<and> registry ''Pool'' [] = Some Pool_layout
    \<and> registry ''PoolCreated'' [] = Some PoolCreated_layout"
    by (simp add: registry_def)
  have rt: "\<exists>bs. ser name typeArgs rec = Inr bs
               \<and> de name bs typeArgs = Inr rec
               \<and> de name (bs @ trailing) typeArgs = Inr rec"
    if r: "registry name typeArgs = Some layout" and i: "in_range layout rec"
  proof -
    from in_range_encodes [OF i] obtain bs where bs: "encode layout rec = Some bs" by blast
    from encode_decode [OF bs, of "[]"] encode_decode [OF bs, of trailing]
    have "decode layout bs = Some (rec, [])"
      "decode layout (bs @ trailing) = Some (rec, trailing)" by simp_all
    with r bs show ?thesis by (simp add: ser_def de_def)
  qed
  from reg rt show ?thesis by blast
qed

theorem registered_layouts_round_trip_witness:
  "(\<exists>bs. ser ''Order'' [] sample_order = Inr bs \<and> de ''Order'' bs [] = Inr sample_order)
   \<and> (\<exists>bs. ser ''Field'' [U64, Node_layout Order_layout] sample_field = Inr bs
           \<and> de ''Field'' bs [U64, Node_layout Order_layout] = Inr sample_field)"
proof -
  have o: "in_range Order_layout sample_order"
    by (simp add: Order_layout_def sample_order_def)
  have f: "in_range (Field_layout U64 (Node_layout Order_layout)) sample_field"
    using o by (simp add: Field_layout_def Node_layout_def sample_field_def)
  have r: "registry ''Order'' [] = Some Order_layout"
    "registry ''Field'' [U64, Node_layout Order_layout]
     = Some (Field_layout U64 (Node_layout Order_layout))"
    by (simp_all add: registry_def)
  from registered_layouts_round_trip
         [where name = "''Order''" and typeArgs = "[]" and layout = Order_layout
            and rec = sample_order and trailing = "[]" and K = U8 and V = U8] r(1) o
  have a: "\<exists>bs. ser ''Order'' [] sample_order = Inr bs \<and> de ''Order'' bs [] = Inr sample_order"
    by blast
  from registered_layouts_round_trip
         [where name = "''Field''" and typeArgs = "[U64, Node_layout Order_layout]"
            and layout = "Field_layout U64 (Node_layout Order_layout)"
            and rec = sample_field and trailing = "[]" and K = U8 and V = U8] r(2) f
  have b: "\<exists>bs. ser ''Field'' [U64, Node_layout Order_layout] sample_field = Inr bs
           \<and> de ''Field'' bs [U64, Node_layout Order_layout] = Inr sample_field"
    by blast
  from a b show ?thesis by blast
qed

end
